theory Spec2Isabelle
  imports Main "HOL-Library.Monad_Syntax"
begin

section \<open>Dump events: the NDJSON line decoder of package dump\<close>

text \<open>
  The program is \<^verbatim>\<open>DecodeNDJSONLine\<close> with its two helpers
  \<^verbatim>\<open>validateRequiredKeys\<close> and \<^verbatim>\<open>validateEvent\<close>, and the types of
  \<^verbatim>\<open>internal/dump/types.go\<close>. A Go string is a sequence of bytes: it is a
  \<^typ>\<open>string\<close> here, one \<^typ>\<open>char\<close> per byte. The functions of the Go
  standard library that the decoder calls (\<^verbatim>\<open>strings.TrimSpace\<close>,
  \<^verbatim>\<open>json.Unmarshal\<close>, \<^verbatim>\<open>json.Valid\<close>, \<^verbatim>\<open>json.Marshal\<close>,
  \<^verbatim>\<open>time.Parse\<close>, \<^verbatim>\<open>Time.UTC\<close>, \<^verbatim>\<open>Time.Format\<close>) are not part
  of the repository; they are modelled below from their documented behaviour, each
  as an executable function on bytes.
\<close>

subsection \<open>Bytes\<close>

definition byte :: "char \<Rightarrow> nat" where
  "byte c = of_char c"

definition is_digit :: "char \<Rightarrow> bool" where
  "is_digit c = (48 \<le> byte c \<and> byte c \<le> 57)"

definition digit_val :: "char \<Rightarrow> nat" where
  "digit_val c = byte c - 48"

definition is_hex :: "char \<Rightarrow> bool" where
  "is_hex c = (is_digit c \<or> (97 \<le> byte c \<and> byte c \<le> 102) \<or> (65 \<le> byte c \<and> byte c \<le> 70))"

definition hex_val :: "char \<Rightarrow> nat" where
  "hex_val c = (if is_digit c then byte c - 48
                else if 97 \<le> byte c then byte c - 87 else byte c - 55)"

subsection \<open>strings.TrimSpace\<close>

text \<open>
  \<^verbatim>\<open>strings.TrimSpace\<close> removes leading and trailing white space as Unicode
  defines it (\<^verbatim>\<open>unicode.IsSpace\<close>), on the UTF-8 encoding of the string. The
  white space code points are U+0009 to U+000D, U+0020, U+0085, U+00A0, U+1680,
  U+2000 to U+200A, U+2028, U+2029, U+202F, U+205F and U+3000; the list below holds
  their UTF-8 encodings. A byte sequence that is not the encoding of one of them
  (also an ill-formed one) is not white space.
\<close>

definition space_encodings :: "nat list list" where
  "space_encodings =
     [[0x09], [0x0A], [0x0B], [0x0C], [0x0D], [0x20],
      [0xC2, 0x85], [0xC2, 0xA0], [0xE1, 0x9A, 0x80],
      [0xE2, 0x80, 0x80], [0xE2, 0x80, 0x81], [0xE2, 0x80, 0x82], [0xE2, 0x80, 0x83],
      [0xE2, 0x80, 0x84], [0xE2, 0x80, 0x85], [0xE2, 0x80, 0x86], [0xE2, 0x80, 0x87],
      [0xE2, 0x80, 0x88], [0xE2, 0x80, 0x89], [0xE2, 0x80, 0x8A],
      [0xE2, 0x80, 0xA8], [0xE2, 0x80, 0xA9], [0xE2, 0x80, 0xAF],
      [0xE2, 0x81, 0x9F], [0xE3, 0x80, 0x80]]"

text \<open>
  The width in bytes of the white space rune that \<open>bs\<close> starts with, 0 if none.
  No encoding is longer than three bytes, so three bytes of the input decide.
\<close>

definition space_width :: "nat list list \<Rightarrow> nat list \<Rightarrow> nat" where
  "space_width encs bs =
     (case List.find (\<lambda>e. take (length e) bs = e) encs of
        None \<Rightarrow> 0
      | Some e \<Rightarrow> length e)"

fun trim_front :: "nat list list \<Rightarrow> string \<Rightarrow> string" where
  "trim_front encs [] = []"
| "trim_front encs (c # cs) =
     (let n = space_width encs (map byte (c # take 2 cs))
      in if n = 0 then c # cs else trim_front encs (drop (n - 1) cs))"

definition TrimLeftSpace :: "string \<Rightarrow> string" where
  "TrimLeftSpace s = trim_front space_encodings s"

text \<open>
  Trailing white space is found from the end (\<^verbatim>\<open>utf8.DecodeLastRune\<close>): the
  string ends with white space exactly when it ends with one of the encodings.
\<close>

definition TrimRightSpace :: "string \<Rightarrow> string" where
  "TrimRightSpace s = rev (trim_front (map rev space_encodings) (rev s))"

definition TrimSpace :: "string \<Rightarrow> string" where
  "TrimSpace s = TrimRightSpace (TrimLeftSpace s)"

subsection \<open>encoding/json: values and the parser\<close>

text \<open>
  A parsed JSON value. A number keeps its literal, a string is held decoded, and
  every member of an object keeps, beside its decoded key and its parsed value, the
  bytes of the value as they stand in the input: this is what a
  \<^verbatim>\<open>json.RawMessage\<close> receives.
\<close>

datatype json =
    JNull
  | JBool bool
  | JNumber string
  | JString string
  | JArray "json list"
  | JObject "(string \<times> string \<times> json) list"

text \<open>The scanner's white space: space, tab, carriage return, line feed.\<close>

definition is_ws :: "char \<Rightarrow> bool" where
  "is_ws c = (c = CHR 0x20 \<or> c = CHR 0x09 \<or> c = CHR 0x0D \<or> c = CHR 0x0A)"

definition skip_ws :: "string \<Rightarrow> string" where
  "skip_ws s = dropWhile is_ws s"

text \<open>
  \<^verbatim>\<open>utf8.DecodeRune\<close>, as far as the decoder needs it: the width of the
  well-formed UTF-8 sequence that the bytes start with, 0 if they start with none.
\<close>

definition is_cont :: "nat \<Rightarrow> bool" where
  "is_cont b = (0x80 \<le> b \<and> b \<le> 0xBF)"

fun utf8_width :: "nat list \<Rightarrow> nat" where
  "utf8_width [] = 0"
| "utf8_width (b0 # bs) =
     (if b0 < 0x80 then 1
      else if 0xC2 \<le> b0 \<and> b0 \<le> 0xDF then
        (case bs of b1 # _ \<Rightarrow> if is_cont b1 then 2 else 0 | _ \<Rightarrow> 0)
      else if 0xE0 \<le> b0 \<and> b0 \<le> 0xEF then
        (case bs of
           b1 # b2 # _ \<Rightarrow>
             if (if b0 = 0xE0 then 0xA0 \<le> b1 \<and> b1 \<le> 0xBF
                 else if b0 = 0xED then 0x80 \<le> b1 \<and> b1 \<le> 0x9F
                 else is_cont b1) \<and> is_cont b2
             then 3 else 0
         | _ \<Rightarrow> 0)
      else if 0xF0 \<le> b0 \<and> b0 \<le> 0xF4 then
        (case bs of
           b1 # b2 # b3 # _ \<Rightarrow>
             if (if b0 = 0xF0 then 0x90 \<le> b1 \<and> b1 \<le> 0xBF
                 else if b0 = 0xF4 then 0x80 \<le> b1 \<and> b1 \<le> 0x8F
                 else is_cont b1) \<and> is_cont b2 \<and> is_cont b3
             then 4 else 0
         | _ \<Rightarrow> 0)
      else 0)"

text \<open>\<^verbatim>\<open>utf8.EncodeRune\<close>: surrogates and values beyond U+10FFFF become U+FFFD.\<close>

definition replacement_char :: "string" where
  "replacement_char = [char_of (0xEF :: nat), char_of (0xBF :: nat), char_of (0xBD :: nat)]"

definition EncodeRune :: "nat \<Rightarrow> string" where
  "EncodeRune r =
     (if r < 0x80 then [char_of r]
      else if r < 0x800 then [char_of (0xC0 + r div 64), char_of (0x80 + r mod 64)]
      else if (0xD800 \<le> r \<and> r \<le> 0xDFFF) \<or> 0x10FFFF < r then replacement_char
      else if r < 0x10000 then
        [char_of (0xE0 + r div 4096), char_of (0x80 + (r div 64) mod 64),
         char_of (0x80 + r mod 64)]
      else
        [char_of (0xF0 + r div 262144), char_of (0x80 + (r div 4096) mod 64),
         char_of (0x80 + (r div 64) mod 64), char_of (0x80 + r mod 64)])"

text \<open>\<^verbatim>\<open>getu4\<close>: the value of \<^verbatim>\<open>\uXXXX\<close> at the start of the bytes.\<close>

fun getu4 :: "string \<Rightarrow> nat option" where
  "getu4 (b # u # h1 # h2 # h3 # h4 # _) =
     (if b = CHR 0x5C \<and> u = CHR ''u'' \<and> is_hex h1 \<and> is_hex h2 \<and> is_hex h3 \<and> is_hex h4
      then Some (((hex_val h1 * 16 + hex_val h2) * 16 + hex_val h3) * 16 + hex_val h4)
      else None)"
| "getu4 _ = None"

definition is_surrogate :: "nat \<Rightarrow> bool" where
  "is_surrogate r = (0xD800 \<le> r \<and> r < 0xE000)"

text \<open>\<^verbatim>\<open>utf16.DecodeRune\<close>: a high and a low surrogate give a code point.\<close>

definition utf16_DecodeRune :: "nat \<Rightarrow> nat option \<Rightarrow> nat option" where
  "utf16_DecodeRune r1 r2 =
     (case r2 of
        None \<Rightarrow> None
      | Some lo \<Rightarrow>
          if 0xD800 \<le> r1 \<and> r1 < 0xDC00 \<and> 0xDC00 \<le> lo \<and> lo < 0xE000
          then Some ((r1 - 0xD800) * 1024 + (lo - 0xDC00) + 0x10000)
          else None)"

definition simple_escape :: "char \<Rightarrow> char option" where
  "simple_escape e =
     (if e = CHR 0x22 \<or> e = CHR 0x5C \<or> e = CHR ''/'' then Some e
      else if e = CHR ''b'' then Some (CHR 0x08)
      else if e = CHR ''f'' then Some (CHR 0x0C)
      else if e = CHR ''n'' then Some (CHR 0x0A)
      else if e = CHR ''r'' then Some (CHR 0x0D)
      else if e = CHR ''t'' then Some (CHR 0x09)
      else None)"

definition cons_out :: "string \<Rightarrow> (string \<times> string) option \<Rightarrow> (string \<times> string) option" where
  "cons_out out r = (case r of None \<Rightarrow> None | Some (t, rest) \<Rightarrow> Some (out @ t, rest))"

text \<open>
  A string literal, from the byte after its opening quote: the scanner's check
  (no control character, only the escapes of JSON) and \<^verbatim>\<open>unquote\<close> in one
  pass. The result is the decoded string and the input after the closing quote.
  Ill-formed UTF-8 is accepted and replaced by U+FFFD byte by byte, and a
  surrogate that is not half of a pair becomes U+FFFD.
\<close>

fun scan_string :: "string \<Rightarrow> (string \<times> string) option" where
  "scan_string [] = None"
| "scan_string (c # cs) =
     (if c = CHR 0x22 then Some ([], cs)
      else if c = CHR 0x5C then
        (case cs of
           [] \<Rightarrow> None
         | e # es \<Rightarrow>
             if e = CHR ''u'' then
               (case getu4 (c # cs) of
                  None \<Rightarrow> None
                | Some rr \<Rightarrow>
                    if is_surrogate rr then
                      (case utf16_DecodeRune rr (getu4 (drop 5 cs)) of
                         Some dec \<Rightarrow> cons_out (EncodeRune dec) (scan_string (drop 11 cs))
                       | None \<Rightarrow> cons_out replacement_char (scan_string (drop 5 cs)))
                    else cons_out (EncodeRune rr) (scan_string (drop 5 cs)))
             else
               (case simple_escape e of
                  None \<Rightarrow> None
                | Some b \<Rightarrow> cons_out [b] (scan_string es)))
      else if byte c < 0x20 then None
      else if byte c < 0x80 then cons_out [c] (scan_string cs)
      else
        (let n = utf8_width (map byte (c # cs))
         in if n = 0 then cons_out replacement_char (scan_string cs)
            else cons_out (c # take (n - 1) cs) (scan_string (drop (n - 1) cs))))"

lemma cons_out_Some:
  "cons_out out r = Some (t, rest) \<longleftrightarrow> (\<exists>t'. r = Some (t', rest) \<and> t = out @ t')"
  by (auto simp: cons_out_def split: option.splits)

lemma scan_string_length: "scan_string s = Some (t, r) \<Longrightarrow> length r < length s"
proof (induction "length s" arbitrary: s t r rule: less_induct)
  case less
  obtain c cs where s: "s = c # cs" using less.prems by (cases s) auto
  have IH: "length r' < length x" if "length x \<le> length cs" "scan_string x = Some (t', r')" for x t' r'
    using less.hyps[of x t' r'] that s by simp
  have D: "length r' \<le> length cs" if "scan_string (drop k cs) = Some (t', r')" for k t' r'
    using IH[of "drop k cs" t' r'] that by simp
  have E: "length r' \<le> length cs" if "cons_out out (scan_string (drop k cs)) = Some (t', r')" for k t' r' out
    using that D by (auto simp: cons_out_Some)
  have E0: "length r' \<le> length cs" if "cons_out out (scan_string cs) = Some (t', r')" for t' r' out
    using E[of out 0] that by simp
  have "length r \<le> length cs"
  proof (cases "c = CHR 0x22")
    case True then show ?thesis using less.prems s by simp
  next
    case nq: False
    show ?thesis
    proof (cases "c = CHR 0x5C")
      case True
      then obtain e es where cs: "cs = e # es" using less.prems s by (cases cs) auto
      show ?thesis
      proof (cases "e = CHR ''u''")
        case True
        with less.prems s cs \<open>c = CHR 0x5C\<close> show ?thesis
          apply (simp split: option.splits if_splits del: getu4.simps)
          using E[of _ 5] E[of _ 11] cs by auto
      next
        case False
        with less.prems s cs \<open>c = CHR 0x5C\<close> have "\<exists>b. cons_out [b] (scan_string es) = Some (t, r)"
          by (auto split: option.splits)
        then show ?thesis using E[of _ 1] cs by auto
      qed
    next
      case False
      with nq less.prems s show ?thesis
        apply (simp add: Let_def split: if_splits del: utf8_width.simps)
        using E0 E by blast+
    qed
  qed
  then show ?case using s by simp
qed

text \<open>
  A number literal: an optional minus, \<open>0\<close> or a digit from 1 to 9 followed by
  digits, an optional fraction and an optional exponent, as the scanner's states
  \<^verbatim>\<open>stateNeg, state0, state1, stateDot, stateDot0, stateE, stateESign, stateE0\<close>
  accept them. The result is the literal and the input after it.
\<close>

definition scan_int_part :: "string \<Rightarrow> (string \<times> string) option" where
  "scan_int_part s =
     (case s of
        [] \<Rightarrow> None
      | c # cs \<Rightarrow>
          if c = CHR ''0'' then Some ([c], cs)
          else if is_digit c then Some (c # takeWhile is_digit cs, dropWhile is_digit cs)
          else None)"

definition scan_frac :: "string \<Rightarrow> (string \<times> string) option" where
  "scan_frac s =
     (case s of
        c # d # ds \<Rightarrow>
          if c = CHR ''.'' then
            (if is_digit d then Some (c # d # takeWhile is_digit ds, dropWhile is_digit ds)
             else None)
          else Some ([], s)
      | [c] \<Rightarrow> if c = CHR ''.'' then None else Some ([], s)
      | [] \<Rightarrow> Some ([], s))"

definition scan_exp_digits :: "string \<Rightarrow> string \<Rightarrow> (string \<times> string) option" where
  "scan_exp_digits pre s =
     (case s of
        d # ds \<Rightarrow>
          if is_digit d then Some (pre @ d # takeWhile is_digit ds, dropWhile is_digit ds)
          else None
      | [] \<Rightarrow> None)"

definition scan_exp :: "string \<Rightarrow> (string \<times> string) option" where
  "scan_exp s =
     (case s of
        [] \<Rightarrow> Some ([], s)
      | c # cs \<Rightarrow>
          if c = CHR ''e'' \<or> c = CHR ''E'' then
            (case cs of
               [] \<Rightarrow> None
             | g # gs \<Rightarrow>
                 if g = CHR ''+'' \<or> g = CHR ''-'' then scan_exp_digits [c, g] gs
                 else scan_exp_digits [c] cs)
          else Some ([], s))"

definition scan_number :: "string \<Rightarrow> (string \<times> string) option" where
  "scan_number s =
     (let (sign, s1) = (case s of c # cs \<Rightarrow> if c = CHR ''-'' then ([c], cs) else ([], s)
                                 | [] \<Rightarrow> ([], s))
      in case scan_int_part s1 of
           None \<Rightarrow> None
         | Some (ip, s2) \<Rightarrow>
             (case scan_frac s2 of
                None \<Rightarrow> None
              | Some (fp, s3) \<Rightarrow>
                  (case scan_exp s3 of
                     None \<Rightarrow> None
                   | Some (ep, s4) \<Rightarrow> Some (sign @ ip @ fp @ ep, s4))))"

text \<open>The literals \<^verbatim>\<open>true\<close>, \<^verbatim>\<open>false\<close> and \<^verbatim>\<open>null\<close>.\<close>

definition scan_literal :: "string \<Rightarrow> string \<Rightarrow> string option" where
  "scan_literal lit s = (if take (length lit) s = lit then Some (drop (length lit) s) else None)"

text \<open>
  The nesting limit of the scanner (\<^verbatim>\<open>maxNestingDepth\<close>): an array or object
  may be opened only while fewer than 10000 are open.
\<close>

definition maxNestingDepth :: nat where
  "maxNestingDepth = 10000"

text \<open>
  One value, from its first byte (the caller has skipped white space), with \<open>d\<close>
  the number of arrays and objects that may still be opened. The result is the
  value and the input after it. \<open>parse_elems\<close> reads the elements of an array
  from the first byte of an element to the closing bracket, \<open>parse_members\<close> the
  members of an object from the opening quote of a key to the closing brace.
\<close>

function parse_value :: "nat \<Rightarrow> string \<Rightarrow> (json \<times> string) option"
  and parse_elems :: "nat \<Rightarrow> string \<Rightarrow> (json list \<times> string) option"
  and parse_members :: "nat \<Rightarrow> string \<Rightarrow> ((string \<times> string \<times> json) list \<times> string) option"
where
  "parse_value d s =
     (case s of
        [] \<Rightarrow> None
      | c # cs \<Rightarrow>
          if c = CHR ''{'' then
            (if d = 0 then None
             else (case skip_ws cs of
                     [] \<Rightarrow> None
                   | c' # cs' \<Rightarrow>
                       if c' = CHR ''}'' then Some (JObject [], cs')
                       else (case parse_members (d - 1) (c' # cs') of
                               None \<Rightarrow> None
                             | Some (ms, r) \<Rightarrow> Some (JObject ms, r))))
          else if c = CHR ''['' then
            (if d = 0 then None
             else (case skip_ws cs of
                     [] \<Rightarrow> None
                   | c' # cs' \<Rightarrow>
                       if c' = CHR '']'' then Some (JArray [], cs')
                       else (case parse_elems (d - 1) (c' # cs') of
                               None \<Rightarrow> None
                             | Some (vs, r) \<Rightarrow> Some (JArray vs, r))))
          else if c = CHR 0x22 then
            (case scan_string cs of None \<Rightarrow> None | Some (t, r) \<Rightarrow> Some (JString t, r))
          else if c = CHR ''t'' then
            (case scan_literal ''true'' s of None \<Rightarrow> None | Some r \<Rightarrow> Some (JBool True, r))
          else if c = CHR ''f'' then
            (case scan_literal ''false'' s of None \<Rightarrow> None | Some r \<Rightarrow> Some (JBool False, r))
          else if c = CHR ''n'' then
            (case scan_literal ''null'' s of None \<Rightarrow> None | Some r \<Rightarrow> Some (JNull, r))
          else
            (case scan_number s of None \<Rightarrow> None | Some (lit, r) \<Rightarrow> Some (JNumber lit, r)))"
| "parse_elems d s =
     (case parse_value d s of
        None \<Rightarrow> None
      | Some (v, r) \<Rightarrow>
          (case skip_ws r of
             [] \<Rightarrow> None
           | c # cs \<Rightarrow>
               if c = CHR '']'' then Some ([v], cs)
               else if c = CHR '','' then
                 (case parse_elems d (skip_ws cs) of
                    None \<Rightarrow> None
                  | Some (vs, r') \<Rightarrow> Some (v # vs, r'))
               else None))"
| "parse_members d s =
     (case s of
        [] \<Rightarrow> None
      | q # s0 \<Rightarrow>
          if q \<noteq> CHR 0x22 then None
          else
            (case scan_string s0 of
               None \<Rightarrow> None
             | Some (k, r1) \<Rightarrow>
                 (case skip_ws r1 of
                    [] \<Rightarrow> None
                  | c1 # r2 \<Rightarrow>
                      if c1 \<noteq> CHR '':'' then None
                      else
                        (case parse_value d (skip_ws r2) of
                           None \<Rightarrow> None
                         | Some (v, r4) \<Rightarrow>
                             (let raw = take (length (skip_ws r2) - length r4) (skip_ws r2)
                              in case skip_ws r4 of
                                   [] \<Rightarrow> None
                                 | c # cs \<Rightarrow>
                                     if c = CHR ''}'' then Some ([(k, raw, v)], cs)
                                     else if c = CHR '','' then
                                       (case parse_members d (skip_ws cs) of
                                          None \<Rightarrow> None
                                        | Some (ms, r') \<Rightarrow> Some ((k, raw, v) # ms, r'))
                                     else None)))))"
  by pat_completeness auto

lemma length_skip_ws: "length (skip_ws s) \<le> length s"
  by (simp add: skip_ws_def length_dropWhile_le)

lemma length_dropWhile_less_Suc: "length (dropWhile P xs) < Suc (length xs)"
  by (simp add: le_imp_less_Suc length_dropWhile_le)

lemma length_dropWhile_less_Suc2: "length (dropWhile P xs) < Suc (Suc (length xs))"
  using length_dropWhile_le[of P xs] by simp

lemma scan_int_part_length: "scan_int_part s = Some (a, r) \<Longrightarrow> length r < length s"
  by (cases s) (auto simp: scan_int_part_def length_dropWhile_less_Suc split: if_splits)

lemma scan_frac_length:
  assumes h: "scan_frac s = Some (a, r)"
  shows "length r \<le> length s"
proof (cases s)
  case Nil
  with h show ?thesis by (simp add: scan_frac_def)
next
  case (Cons c cs)
  show ?thesis
  proof (cases cs)
    case Nil
    with Cons h show ?thesis by (auto simp: scan_frac_def split: if_splits)
  next
    case (Cons d ds)
    with \<open>s = c # cs\<close> h show ?thesis
      using length_dropWhile_le[of is_digit ds]
      by (auto simp: scan_frac_def split: if_splits)
  qed
qed

lemma scan_exp_digits_length: "scan_exp_digits pre s = Some (a, r) \<Longrightarrow> length r < length s"
  by (cases s) (auto simp: scan_exp_digits_def length_dropWhile_less_Suc split: if_splits)

lemma scan_exp_length:
  assumes h: "scan_exp s = Some (a, r)"
  shows "length r \<le> length s"
proof (cases s)
  case Nil
  with h show ?thesis by (simp add: scan_exp_def)
next
  case (Cons c cs)
  show ?thesis
  proof (cases "c = CHR ''e'' \<or> c = CHR ''E''")
    case False
    with Cons h show ?thesis by (auto simp: scan_exp_def)
  next
    case True
    show ?thesis
    proof (cases cs)
      case Nil
      with Cons h True show ?thesis by (auto simp: scan_exp_def)
    next
      case (Cons g gs)
      with \<open>s = c # cs\<close> h True have
        "scan_exp_digits [c, g] gs = Some (a, r) \<or> scan_exp_digits [c] cs = Some (a, r)"
        by (auto simp: scan_exp_def split: if_splits)
      then show ?thesis
        using scan_exp_digits_length[of "[c, g]" gs a r] scan_exp_digits_length[of "[c]" cs a r]
          Cons \<open>s = c # cs\<close> by auto
    qed
  qed
qed

lemma scan_number_length:
  assumes h: "scan_number s = Some (lit, r)"
  shows "length r < length s"
proof -
  define s1 where "s1 = (case s of c # cs \<Rightarrow> if c = CHR ''-'' then cs else s | [] \<Rightarrow> s)"
  have l1: "length s1 \<le> length s" by (auto simp: s1_def split: list.splits)
  from h obtain ip s2 fp s3 ep where
    a: "scan_int_part s1 = Some (ip, s2)" and b: "scan_frac s2 = Some (fp, s3)"
    and c: "scan_exp s3 = Some (ep, r)"
    by (auto simp: scan_number_def s1_def split: list.splits if_splits option.splits)
  from scan_int_part_length[OF a] scan_frac_length[OF b] scan_exp_length[OF c] l1
  show ?thesis by simp
qed

lemma scan_literal_length: "scan_literal lit s = Some r \<Longrightarrow> lit \<noteq> [] \<Longrightarrow> length r < length s"
  by (cases s; cases lit) (auto simp: scan_literal_def split: if_splits)

lemma skip_ws_Cons_length: "skip_ws s = c # cs \<Longrightarrow> length cs < length s"
  using length_skip_ws[of s] by simp

lemma parse_dom_length:
  "parse_value_parse_elems_parse_members_dom (Inl (d, s)) \<Longrightarrow>
     parse_value d s = Some (v, r) \<Longrightarrow> length r < length s"
  "parse_value_parse_elems_parse_members_dom (Inr (Inl (d, s))) \<Longrightarrow>
     parse_elems d s = Some (vs, r) \<Longrightarrow> length r < length s"
  "parse_value_parse_elems_parse_members_dom (Inr (Inr (d, s))) \<Longrightarrow>
     parse_members d s = Some (ms, r) \<Longrightarrow> length r < length s"
proof (induction d s and d s and d s arbitrary: v r and vs r and ms r
       rule: parse_value_parse_elems_parse_members.pinduct)
  case (1 d s)
  obtain c cs where s: "s = c # cs"
    using "1.prems" "1.hyps" by (cases s) (auto simp: parse_value.psimps)
  note eq0 = "1.prems"[unfolded parse_value.psimps[OF "1.hyps"]]
  note eq = eq0[unfolded s list.case]
  show ?case
  proof (cases "c = CHR ''{''")
    case True
    with eq obtain c' cs' where sk: "skip_ws cs = c' # cs'" and d: "d \<noteq> 0"
      by (cases "skip_ws cs") (auto split: if_splits)
    show ?thesis
    proof (cases "c' = CHR ''}''")
      case True
      with eq \<open>c = CHR ''{''\<close> sk d have "r = cs'" by simp
      then show ?thesis using skip_ws_Cons_length[OF sk] s by simp
    next
      case False
      with eq \<open>c = CHR ''{''\<close> sk d obtain ms where "parse_members (d - 1) (c' # cs') = Some (ms, r)"
        by (auto split: option.splits)
      from "1.IH"(1)[OF s True d sk False this] skip_ws_Cons_length[OF sk] s
      show ?thesis by simp
    qed
  next
    case nobj: False
    show ?thesis
    proof (cases "c = CHR ''[''")
      case True
      with eq nobj obtain c' cs' where sk: "skip_ws cs = c' # cs'" and d: "d \<noteq> 0"
        by (cases "skip_ws cs") (auto split: if_splits)
      show ?thesis
      proof (cases "c' = CHR '']''")
        case True
        with eq \<open>c = CHR ''[''\<close> sk d have "r = cs'" by simp
        then show ?thesis using skip_ws_Cons_length[OF sk] s by simp
      next
        case False
        with eq \<open>c = CHR ''[''\<close> sk d obtain vs where "parse_elems (d - 1) (c' # cs') = Some (vs, r)"
          by (auto split: option.splits)
        from "1.IH"(2)[OF s nobj True d sk False this] skip_ws_Cons_length[OF sk] s
        show ?thesis by simp
      qed
    next
      case narr: False
      from eq nobj narr have
        "(\<exists>t. scan_string cs = Some (t, r)) \<or> scan_literal ''true'' (c # cs) = Some r
          \<or> scan_literal ''false'' (c # cs) = Some r \<or> scan_literal ''null'' (c # cs) = Some r
          \<or> (\<exists>lit. scan_number (c # cs) = Some (lit, r))"
        by (auto split: if_splits option.splits)
      then show ?thesis
        using scan_string_length[of cs _ r] scan_literal_length[of _ "c # cs" r]
          scan_number_length[of "c # cs" _ r] s
        by (elim disjE exE) force+
    qed
  qed
next
  case (2 d s)
  note eq = "2.prems"[unfolded parse_elems.psimps[OF "2.hyps"]]
  from eq obtain v r1 where pv: "parse_value d s = Some (v, r1)"
    by (auto split: option.splits)
  note l1 = "2.IH"(1)[OF pv]
  from eq pv obtain c cs where sk: "skip_ws r1 = c # cs"
    by (cases "skip_ws r1") auto
  note l2 = skip_ws_Cons_length[OF sk]
  show ?case
  proof (cases "c = CHR '']''")
    case True
    with eq pv sk have "r = cs" by simp
    with l1 l2 show ?thesis by simp
  next
    case False
    with eq pv sk have comma: "c = CHR '',''" by (auto split: if_splits)
    with eq pv sk False obtain vs' where pe: "parse_elems d (skip_ws cs) = Some (vs', r)"
      by (auto split: option.splits)
    from "2.IH"(2)[OF pv refl sk False comma pe] length_skip_ws[of cs] l1 l2
    show ?thesis by simp
  qed
next
  case (3 d s)
  note eq = "3.prems"[unfolded parse_members.psimps[OF "3.hyps"]]
  from eq obtain q s0 where s: "s = q # s0" by (cases s) auto
  from eq s have q: "\<not> q \<noteq> CHR 0x22" by (auto split: if_splits)
  from eq s q obtain k r1 where ss: "scan_string s0 = Some (k, r1)"
    by (auto split: option.splits)
  from eq s q ss obtain c1 r2 where sk1: "skip_ws r1 = c1 # r2"
    by (cases "skip_ws r1") auto
  from eq s q ss sk1 have c1: "\<not> c1 \<noteq> CHR '':''" by (auto split: if_splits)
  from eq s q ss sk1 c1 obtain v r4 where pv: "parse_value d (skip_ws r2) = Some (v, r4)"
    by (auto split: option.splits)
  note l0 = scan_string_length[OF ss] skip_ws_Cons_length[OF sk1] length_skip_ws[of r2]
  note l1 = "3.IH"(1)[OF s q ss refl sk1 c1 pv]
  from eq s q ss sk1 c1 pv obtain c cs where sk4: "skip_ws r4 = c # cs"
    by (cases "skip_ws r4") (auto simp: Let_def)
  note l2 = skip_ws_Cons_length[OF sk4]
  show ?case
  proof (cases "c = CHR ''}''")
    case True
    with eq s q ss sk1 c1 pv sk4 have "r = cs" by (simp add: Let_def)
    with l0 l1 l2 s show ?thesis by simp
  next
    case False
    with eq s q ss sk1 c1 pv sk4 have comma: "c = CHR '',''"
      by (auto simp: Let_def split: if_splits)
    with eq s q ss sk1 c1 pv sk4 False obtain ms' where
      pm: "parse_members d (skip_ws cs) = Some (ms', r)"
      by (auto simp: Let_def split: option.splits)
    from "3.IH"(2)[OF s q ss refl sk1 c1 pv refl refl sk4 False comma pm]
      length_skip_ws[of cs] l0 l1 l2 s
    show ?thesis by simp
  qed
qed

termination parse_value
  apply (relation "measure (\<lambda>x. case x of
           Inl (d, s) \<Rightarrow> 2 * length s
         | Inr (Inl (d, s)) \<Rightarrow> 2 * length s + 1
         | Inr (Inr (d, s)) \<Rightarrow> 2 * length s + 1)")
  apply simp
  subgoal for d s c cs c' cs' using length_skip_ws[of cs] by simp
  subgoal for d s c cs c' cs' using length_skip_ws[of cs] by simp
  subgoal by simp
  subgoal for d s x2 v r c cs
    using parse_dom_length(1)[of d s v r] length_skip_ws[of r] length_skip_ws[of cs] by simp
  subgoal for d s q s0 x2 k r1 c1 r2
    using scan_string_length[of s0 k r1] length_skip_ws[of r1] length_skip_ws[of r2] by simp
  subgoal for d s q s0 x2 k r1 c1 r2 x2a v r4 raw c cs
    using parse_dom_length(1)[of d "skip_ws r2" v r4] scan_string_length[of s0 k r1] length_skip_ws[of r1] length_skip_ws[of r2] length_skip_ws[of r4] length_skip_ws[of cs] by simp
  done

declare parse_value.simps [simp del] parse_elems.simps [simp del] parse_members.simps [simp del]

definition parse_top :: "string \<Rightarrow> json option" where
  "parse_top s =
     (case parse_value maxNestingDepth (skip_ws s) of
        None \<Rightarrow> None
      | Some (j, r) \<Rightarrow> if skip_ws r = [] then Some j else None)"

text \<open>\<^verbatim>\<open>json.Valid\<close>: the bytes are one JSON value, white space around it allowed.\<close>

definition json_Valid :: "string \<Rightarrow> bool" where
  "json_Valid s = (parse_top s \<noteq> None)"

subsection \<open>The data model (types.go)\<close>

text \<open>
  A Go \<^verbatim>\<open>int\<close> is an \<^typ>\<open>int\<close>; the decoder stores one only after
  \<^verbatim>\<open>strconv.ParseInt\<close> has found it within 64 bits. A pointer is an
  \<^typ>\<open>'a option\<close> (\<open>None\<close> is \<^verbatim>\<open>nil\<close>), and so is a slice, whose
  \<^verbatim>\<open>nil\<close> differs from the empty slice. A \<^verbatim>\<open>json.RawMessage\<close> is its
  bytes. The field \<^verbatim>\<open>Host\<close> of \<^verbatim>\<open>HTTPMeta\<close> is \<open>HTTP_Host\<close> here, and the
  constant \<^verbatim>\<open>SchemaVersion\<close> is \<open>dump_SchemaVersion\<close>, since the record
  \<open>Event\<close> has fields of both names.
\<close>

definition dump_SchemaVersion :: int where
  "dump_SchemaVersion = 1"

record HTTPMeta =
  Method :: string
  Scheme :: string
  HTTP_Host :: string
  Path :: string
  Query :: string
  StatusCode :: "int option"
  ClientIP :: string
  UserAgent :: string

record CommandMeta =
  Name :: string
  Args :: "string list option"
  Cwd :: string

record TraceFrame =
  File :: string
  Line :: int
  Func :: string

record HostMeta =
  Hostname :: string
  PID :: int

record Event =
  SchemaVersion :: int
  ID :: string
  Timestamp :: string
  SourceType :: string
  ProjectRoot :: string
  PHPSAPI :: string
  RequestID :: "string option"
  HTTP :: "HTTPMeta option"
  Command :: "CommandMeta option"
  IsDD :: bool
  PayloadFormat :: string
  Payload :: string
  Trace :: "TraceFrame list option"
  Host :: HostMeta

text \<open>The zero values, which \<^verbatim>\<open>var event Event\<close> starts from.\<close>

definition zero_HTTPMeta :: HTTPMeta where
  "zero_HTTPMeta = \<lparr>Method = [], Scheme = [], HTTP_Host = [], Path = [], Query = [],
     StatusCode = None, ClientIP = [], UserAgent = []\<rparr>"

definition zero_CommandMeta :: CommandMeta where
  "zero_CommandMeta = \<lparr>Name = [], Args = None, Cwd = []\<rparr>"

definition zero_TraceFrame :: TraceFrame where
  "zero_TraceFrame = \<lparr>File = [], Line = 0, Func = []\<rparr>"

definition zero_HostMeta :: HostMeta where
  "zero_HostMeta = \<lparr>Hostname = [], PID = 0\<rparr>"

definition zero_Event :: Event where
  "zero_Event = \<lparr>SchemaVersion = 0, ID = [], Timestamp = [], SourceType = [],
     ProjectRoot = [], PHPSAPI = [], RequestID = None, HTTP = None, Command = None,
     IsDD = False, PayloadFormat = [], Payload = [], Trace = None, Host = zero_HostMeta\<rparr>"

subsection \<open>Errors\<close>

text \<open>
  \<open>ErrUnsupportedSchemaVersion\<close> is the package's sentinel, a value of its own.
  \<open>errors_New\<close> and \<open>fmt_Errorf\<close> carry their message. The two errors of
  \<^verbatim>\<open>json.Unmarshal\<close> are kept apart; their texts are not modelled.
\<close>

datatype error =
    ErrUnsupportedSchemaVersion
  | errors_New string
  | fmt_Errorf string
  | SyntaxError
  | UnmarshalTypeError

subsection \<open>encoding/json: decoding into Go values\<close>

text \<open>
  \<^verbatim>\<open>strconv.ParseInt(s, 10, 64)\<close>: an optional sign and decimal digits, the
  value within 64 bits.
\<close>

definition dec_val :: "string \<Rightarrow> nat" where
  "dec_val ds = foldl (\<lambda>a c. 10 * a + digit_val c) 0 ds"

definition ParseInt64 :: "string \<Rightarrow> int option" where
  "ParseInt64 s =
     (case s of
        [] \<Rightarrow> None
      | c # cs \<Rightarrow>
          (let neg = (c = CHR ''-'');
               ds = (if c = CHR ''-'' \<or> c = CHR ''+'' then cs else s);
               v = (if neg then - int (dec_val ds) else int (dec_val ds))
           in if ds = [] \<or> \<not> list_all is_digit ds then None
              else if - (2 ^ 63) \<le> v \<and> v \<le> 2 ^ 63 - 1 then Some v
              else None))"

text \<open>
  Decoding a JSON value into a Go value that already holds \<open>cur\<close>. The result is the
  new value and whether an \<^verbatim>\<open>UnmarshalTypeError\<close> was recorded: the decoder
  records the error, leaves the value as it is and goes on. \<^verbatim>\<open>null\<close> leaves a
  string, a number, a boolean and a struct unchanged and sets a pointer or a slice
  to \<^verbatim>\<open>nil\<close>.
\<close>

definition decode_string :: "string \<Rightarrow> json \<Rightarrow> string \<times> bool" where
  "decode_string cur j =
     (case j of JString t \<Rightarrow> (t, False) | JNull \<Rightarrow> (cur, False) | _ \<Rightarrow> (cur, True))"

definition decode_int :: "int \<Rightarrow> json \<Rightarrow> int \<times> bool" where
  "decode_int cur j =
     (case j of
        JNumber lit \<Rightarrow> (case ParseInt64 lit of Some n \<Rightarrow> (n, False) | None \<Rightarrow> (cur, True))
      | JNull \<Rightarrow> (cur, False)
      | _ \<Rightarrow> (cur, True))"

definition decode_bool :: "bool \<Rightarrow> json \<Rightarrow> bool \<times> bool" where
  "decode_bool cur j =
     (case j of JBool b \<Rightarrow> (b, False) | JNull \<Rightarrow> (cur, False) | _ \<Rightarrow> (cur, True))"

text \<open>A pointer: a \<^verbatim>\<open>nil\<close> pointer is allocated first, then its target decoded.\<close>

definition decode_ptr ::
  "('a \<Rightarrow> json \<Rightarrow> 'a \<times> bool) \<Rightarrow> 'a \<Rightarrow> 'a option \<Rightarrow> json \<Rightarrow> 'a option \<times> bool" where
  "decode_ptr dec zero cur j =
     (case j of
        JNull \<Rightarrow> (None, False)
      | _ \<Rightarrow> (case dec (case cur of None \<Rightarrow> zero | Some c \<Rightarrow> c) j of
                (x, e) \<Rightarrow> (Some x, e)))"

text \<open>
  A slice is its elements, or \<^verbatim>\<open>nil\<close>, together with what its backing array holds
  beyond its length: the elements that an earlier, longer value left there when the
  slice was truncated. Element \<open>i\<close> of a JSON array is decoded into element \<open>i\<close> of
  the backing array, which the decoder exposes again by \<^verbatim>\<open>SetLen\<close> without clearing
  it, and into a zero value beyond the backing array (a grown array is new memory).
  The slice ends with the array and the rest of the backing array stays behind it.
  An empty array gives a new empty slice, \<^verbatim>\<open>null\<close> gives \<^verbatim>\<open>nil\<close>.
\<close>

type_synonym 'a slice = "'a list option \<times> 'a list"

fun decode_elems ::
  "('a \<Rightarrow> json \<Rightarrow> 'a \<times> bool) \<Rightarrow> 'a \<Rightarrow> 'a list \<Rightarrow> json list \<Rightarrow> 'a list \<times> bool" where
  "decode_elems dec zero cur [] = ([], False)"
| "decode_elems dec zero cur (v # vs) =
     (case dec (case cur of [] \<Rightarrow> zero | c # _ \<Rightarrow> c) v of
        (x, e) \<Rightarrow>
          (case decode_elems dec zero (tl cur) vs of
             (xs, e') \<Rightarrow> (x # xs, e \<or> e')))"

definition decode_slice ::
  "('a \<Rightarrow> json \<Rightarrow> 'a \<times> bool) \<Rightarrow> 'a \<Rightarrow> 'a slice \<Rightarrow> json \<Rightarrow> 'a slice \<times> bool" where
  "decode_slice dec zero cur j =
     (case cur of (elems, spare) \<Rightarrow>
      case j of
        JNull \<Rightarrow> ((None, []), False)
      | JArray vs \<Rightarrow>
          if vs = [] then ((Some [], []), False)
          else
            (let backing = (case elems of None \<Rightarrow> [] | Some xs \<Rightarrow> xs) @ spare
             in case decode_elems dec zero backing vs of
                  (xs, e) \<Rightarrow> ((Some xs, drop (length vs) backing), e))
      | _ \<Rightarrow> (cur, True))"

text \<open>
  The field of a struct that an object key names: the field whose name is the key,
  or else the first field whose name equals the key when case is ignored.
  \<open>foldName\<close> is the decoder's folding: ASCII letters to upper case, and the two
  letters beyond ASCII that fold to ASCII ones, U+017F (long s) to \<open>S\<close> and U+212A
  (Kelvin sign) to \<open>K\<close>. Every other byte beyond ASCII is kept, so that a key
  holding one never equals a folded field name, which is ASCII.
\<close>

fun foldName :: "string \<Rightarrow> string" where
  "foldName [] = []"
| "foldName (c # cs) =
     (if 97 \<le> byte c \<and> byte c \<le> 122 then char_of (byte c - 32) # foldName cs
      else if byte c = 0xC5 \<and> map byte (take 1 cs) = [0xBF] then CHR ''S'' # foldName (drop 1 cs)
      else if byte c = 0xE2 \<and> map byte (take 2 cs) = [0x84, 0xAA]
        then CHR ''K'' # foldName (drop 2 cs)
      else c # foldName cs)"

definition find_field :: "string list \<Rightarrow> string \<Rightarrow> string option" where
  "find_field names key =
     (if key \<in> set names then Some key
      else List.find (\<lambda>n. foldName n = foldName key) names)"

definition HTTPMeta_fields :: "string list" where
  "HTTPMeta_fields = [''method'', ''scheme'', ''host'', ''path'', ''query'', ''statusCode'',
     ''clientIp'', ''userAgent'']"

definition CommandMeta_fields :: "string list" where
  "CommandMeta_fields = [''name'', ''args'', ''cwd'']"

definition TraceFrame_fields :: "string list" where
  "TraceFrame_fields = [''file'', ''line'', ''func'']"

definition HostMeta_fields :: "string list" where
  "HostMeta_fields = [''hostname'', ''pid'']"

definition Event_fields :: "string list" where
  "Event_fields = [''schemaVersion'', ''id'', ''timestamp'', ''sourceType'', ''projectRoot'',
     ''phpSapi'', ''requestId'', ''http'', ''command'', ''isDd'', ''payloadFormat'', ''payload'',
     ''trace'', ''host'']"

text \<open>
  A struct: the members of the object are taken in their order, each decoded into
  the field its key names; a key that names no field is skipped. A value that is
  neither an object nor \<^verbatim>\<open>null\<close> is a type error.
\<close>

definition decode_struct ::
  "('a \<times> bool \<Rightarrow> string \<times> string \<times> json \<Rightarrow> 'a \<times> bool) \<Rightarrow> 'a \<Rightarrow> json \<Rightarrow> 'a \<times> bool" where
  "decode_struct member cur j =
     (case j of
        JObject ms \<Rightarrow> foldl member (cur, False) ms
      | JNull \<Rightarrow> (cur, False)
      | _ \<Rightarrow> (cur, True))"

definition HTTPMeta_member :: "HTTPMeta \<times> bool \<Rightarrow> string \<times> string \<times> json \<Rightarrow> HTTPMeta \<times> bool" where
  "HTTPMeta_member acc m =
     (case acc of (h, e) \<Rightarrow>
      case m of (k, raw, v) \<Rightarrow>
        (case find_field HTTPMeta_fields k of
           None \<Rightarrow> (h, e)
         | Some f \<Rightarrow>
             if f = ''method'' then
               (case decode_string (Method h) v of (x, e') \<Rightarrow> (h\<lparr>Method := x\<rparr>, e \<or> e'))
             else if f = ''scheme'' then
               (case decode_string (Scheme h) v of (x, e') \<Rightarrow> (h\<lparr>Scheme := x\<rparr>, e \<or> e'))
             else if f = ''host'' then
               (case decode_string (HTTP_Host h) v of (x, e') \<Rightarrow> (h\<lparr>HTTP_Host := x\<rparr>, e \<or> e'))
             else if f = ''path'' then
               (case decode_string (Path h) v of (x, e') \<Rightarrow> (h\<lparr>Path := x\<rparr>, e \<or> e'))
             else if f = ''query'' then
               (case decode_string (Query h) v of (x, e') \<Rightarrow> (h\<lparr>Query := x\<rparr>, e \<or> e'))
             else if f = ''statusCode'' then
               (case decode_ptr decode_int 0 (StatusCode h) v of
                  (x, e') \<Rightarrow> (h\<lparr>StatusCode := x\<rparr>, e \<or> e'))
             else if f = ''clientIp'' then
               (case decode_string (ClientIP h) v of (x, e') \<Rightarrow> (h\<lparr>ClientIP := x\<rparr>, e \<or> e'))
             else
               (case decode_string (UserAgent h) v of (x, e') \<Rightarrow> (h\<lparr>UserAgent := x\<rparr>, e \<or> e'))))"

definition decode_HTTPMeta :: "HTTPMeta \<Rightarrow> json \<Rightarrow> HTTPMeta \<times> bool" where
  "decode_HTTPMeta = decode_struct HTTPMeta_member"

text \<open>
  A \<open>CommandMeta\<close> is decoded together with the rest of the backing array of its
  \<open>Args\<close>.
\<close>

definition CommandMeta_member ::
  "(CommandMeta \<times> string list) \<times> bool \<Rightarrow> string \<times> string \<times> json
     \<Rightarrow> (CommandMeta \<times> string list) \<times> bool" where
  "CommandMeta_member acc m =
     (case acc of ((c, spare), e) \<Rightarrow>
      case m of (k, raw, v) \<Rightarrow>
        (case find_field CommandMeta_fields k of
           None \<Rightarrow> ((c, spare), e)
         | Some f \<Rightarrow>
             if f = ''name'' then
               (case decode_string (Name c) v of
                  (x, e') \<Rightarrow> ((c\<lparr>Name := x\<rparr>, spare), e \<or> e'))
             else if f = ''args'' then
               (case decode_slice decode_string [] (Args c, spare) v of
                  ((x, spare'), e') \<Rightarrow> ((c\<lparr>Args := x\<rparr>, spare'), e \<or> e'))
             else
               (case decode_string (Cwd c) v of
                  (x, e') \<Rightarrow> ((c\<lparr>Cwd := x\<rparr>, spare), e \<or> e'))))"

definition decode_CommandMeta ::
  "CommandMeta \<times> string list \<Rightarrow> json \<Rightarrow> (CommandMeta \<times> string list) \<times> bool" where
  "decode_CommandMeta = decode_struct CommandMeta_member"

definition TraceFrame_member ::
  "TraceFrame \<times> bool \<Rightarrow> string \<times> string \<times> json \<Rightarrow> TraceFrame \<times> bool" where
  "TraceFrame_member acc m =
     (case acc of (t, e) \<Rightarrow>
      case m of (k, raw, v) \<Rightarrow>
        (case find_field TraceFrame_fields k of
           None \<Rightarrow> (t, e)
         | Some f \<Rightarrow>
             if f = ''file'' then
               (case decode_string (File t) v of (x, e') \<Rightarrow> (t\<lparr>File := x\<rparr>, e \<or> e'))
             else if f = ''line'' then
               (case decode_int (Line t) v of (x, e') \<Rightarrow> (t\<lparr>Line := x\<rparr>, e \<or> e'))
             else
               (case decode_string (Func t) v of (x, e') \<Rightarrow> (t\<lparr>Func := x\<rparr>, e \<or> e'))))"

definition decode_TraceFrame :: "TraceFrame \<Rightarrow> json \<Rightarrow> TraceFrame \<times> bool" where
  "decode_TraceFrame = decode_struct TraceFrame_member"

definition HostMeta_member ::
  "HostMeta \<times> bool \<Rightarrow> string \<times> string \<times> json \<Rightarrow> HostMeta \<times> bool" where
  "HostMeta_member acc m =
     (case acc of (h, e) \<Rightarrow>
      case m of (k, raw, v) \<Rightarrow>
        (case find_field HostMeta_fields k of
           None \<Rightarrow> (h, e)
         | Some f \<Rightarrow>
             if f = ''hostname'' then
               (case decode_string (Hostname h) v of (x, e') \<Rightarrow> (h\<lparr>Hostname := x\<rparr>, e \<or> e'))
             else
               (case decode_int (PID h) v of (x, e') \<Rightarrow> (h\<lparr>PID := x\<rparr>, e \<or> e'))))"

definition decode_HostMeta :: "HostMeta \<Rightarrow> json \<Rightarrow> HostMeta \<times> bool" where
  "decode_HostMeta = decode_struct HostMeta_member"

text \<open>
  The members of an \<open>Event\<close>. \<open>Payload\<close> is a \<^verbatim>\<open>json.RawMessage\<close>: it takes the
  bytes of the member's value whatever the value is, \<^verbatim>\<open>null\<close> too. The event is
  decoded together with the rest of the backing arrays of its two slices, \<open>Trace\<close>
  and the \<open>Args\<close> of its command (\<open>tspare\<close>, \<open>aspare\<close>); a command pointer set to
  \<^verbatim>\<open>nil\<close> leaves no array behind.
\<close>

definition Event_member ::
  "(Event \<times> TraceFrame list \<times> string list) \<times> bool \<Rightarrow> string \<times> string \<times> json
     \<Rightarrow> (Event \<times> TraceFrame list \<times> string list) \<times> bool" where
  "Event_member acc m =
     (case acc of ((ev, tspare, aspare), e) \<Rightarrow>
      case m of (k, raw, v) \<Rightarrow>
        (case find_field Event_fields k of
           None \<Rightarrow> ((ev, tspare, aspare), e)
         | Some f \<Rightarrow>
             if f = ''schemaVersion'' then
               (case decode_int (SchemaVersion ev) v of
                  (x, e') \<Rightarrow> ((ev\<lparr>SchemaVersion := x\<rparr>, tspare, aspare), e \<or> e'))
             else if f = ''id'' then
               (case decode_string (ID ev) v of (x, e') \<Rightarrow> ((ev\<lparr>ID := x\<rparr>, tspare, aspare), e \<or> e'))
             else if f = ''timestamp'' then
               (case decode_string (Timestamp ev) v of
                  (x, e') \<Rightarrow> ((ev\<lparr>Timestamp := x\<rparr>, tspare, aspare), e \<or> e'))
             else if f = ''sourceType'' then
               (case decode_string (SourceType ev) v of
                  (x, e') \<Rightarrow> ((ev\<lparr>SourceType := x\<rparr>, tspare, aspare), e \<or> e'))
             else if f = ''projectRoot'' then
               (case decode_string (ProjectRoot ev) v of
                  (x, e') \<Rightarrow> ((ev\<lparr>ProjectRoot := x\<rparr>, tspare, aspare), e \<or> e'))
             else if f = ''phpSapi'' then
               (case decode_string (PHPSAPI ev) v of (x, e') \<Rightarrow> ((ev\<lparr>PHPSAPI := x\<rparr>, tspare, aspare), e \<or> e'))
             else if f = ''requestId'' then
               (case decode_ptr decode_string [] (RequestID ev) v of
                  (x, e') \<Rightarrow> ((ev\<lparr>RequestID := x\<rparr>, tspare, aspare), e \<or> e'))
             else if f = ''http'' then
               (case decode_ptr decode_HTTPMeta zero_HTTPMeta (HTTP ev) v of
                  (x, e') \<Rightarrow> ((ev\<lparr>HTTP := x\<rparr>, tspare, aspare), e \<or> e'))
             else if f = ''command'' then
               (case decode_ptr decode_CommandMeta (zero_CommandMeta, [])
                       (map_option (\<lambda>c. (c, aspare)) (Command ev)) v of
                  (x, e') \<Rightarrow>
                    ((ev\<lparr>Command := map_option fst x\<rparr>, tspare,
                      (case x of None \<Rightarrow> [] | Some (c, spare) \<Rightarrow> spare)), e \<or> e'))
             else if f = ''isDd'' then
               (case decode_bool (IsDD ev) v of (x, e') \<Rightarrow> ((ev\<lparr>IsDD := x\<rparr>, tspare, aspare), e \<or> e'))
             else if f = ''payloadFormat'' then
               (case decode_string (PayloadFormat ev) v of
                  (x, e') \<Rightarrow> ((ev\<lparr>PayloadFormat := x\<rparr>, tspare, aspare), e \<or> e'))
             else if f = ''payload'' then ((ev\<lparr>Payload := raw\<rparr>, tspare, aspare), e)
             else if f = ''trace'' then
               (case decode_slice decode_TraceFrame zero_TraceFrame (Trace ev, tspare) v of
                  ((x, tspare'), e') \<Rightarrow> ((ev\<lparr>Trace := x\<rparr>, tspare', aspare), e \<or> e'))
             else
               (case decode_HostMeta (Host ev) v of (x, e') \<Rightarrow> ((ev\<lparr>Host := x\<rparr>, tspare, aspare), e \<or> e'))))"

text \<open>
  The program decodes into a new \<open>Event\<close> variable: no slice has a backing array
  at the start, and what is left of them at the end is not part of the event.
\<close>

definition decode_Event :: "Event \<Rightarrow> json \<Rightarrow> Event \<times> bool" where
  "decode_Event cur j =
     (case decode_struct Event_member (cur, [], []) j of
        ((ev, tspare, aspare), e) \<Rightarrow> (ev, e))"

text \<open>
  \<^verbatim>\<open>json.Unmarshal\<close> at the types the decoder uses it with. The whole input is
  checked first (\<open>SyntaxError\<close>); then the value is decoded, and the first type
  error recorded is returned at the end.
\<close>

definition json_Unmarshal ::
  "('a \<Rightarrow> json \<Rightarrow> 'a \<times> bool) \<Rightarrow> 'a \<Rightarrow> string \<Rightarrow> error + 'a" where
  "json_Unmarshal dec cur data =
     (case parse_top data of
        None \<Rightarrow> Inl SyntaxError
      | Some j \<Rightarrow> (case dec cur j of (x, e) \<Rightarrow> if e then Inl UnmarshalTypeError else Inr x))"

text \<open>
  Into \<^verbatim>\<open>map[string]json.RawMessage\<close>: every member stores the bytes of its
  value under its key, a later member replacing an earlier one of the same key;
  \<^verbatim>\<open>null\<close> leaves the map \<^verbatim>\<open>nil\<close>, which has no key.
\<close>

definition decode_raw_map :: "(string \<rightharpoonup> string) \<Rightarrow> json \<Rightarrow> (string \<rightharpoonup> string) \<times> bool" where
  "decode_raw_map cur j =
     (case j of
        JObject ms \<Rightarrow> (foldl (\<lambda>m (k, raw, v). m(k \<mapsto> raw)) cur ms, False)
      | JNull \<Rightarrow> (cur, False)
      | _ \<Rightarrow> (cur, True))"

text \<open>
  Into \<^verbatim>\<open>[]json.RawMessage\<close>: any array is accepted, whatever its elements. The
  elements are given parsed here; the program does not look at them.
\<close>

definition decode_raw_slice :: "json list option \<Rightarrow> json \<Rightarrow> json list option \<times> bool" where
  "decode_raw_slice cur j =
     (case j of
        JArray vs \<Rightarrow> (Some vs, False)
      | JNull \<Rightarrow> (None, False)
      | _ \<Rightarrow> (cur, True))"

subsection \<open>time.Parse and Time.Format with the layout RFC3339Nano\<close>

text \<open>
  A \<^verbatim>\<open>time.Time\<close> is an instant and a zone: the seconds since
  1970-01-01T00:00:00Z, the nanoseconds within the second, and the offset of the
  zone in seconds east of UTC.
\<close>

record Time =
  unix_sec :: int
  nsec :: int
  zone_offset :: int

text \<open>Days since 1970-01-01 of a date of the proleptic Gregorian calendar, and back.\<close>

definition days_from_civil :: "int \<Rightarrow> int \<Rightarrow> int \<Rightarrow> int" where
  "days_from_civil y m d =
     (let y' = (if m \<le> 2 then y - 1 else y);
          era = y' div 400;
          yoe = y' - era * 400;
          doy = (153 * (if m > 2 then m - 3 else m + 9) + 2) div 5 + d - 1;
          doe = yoe * 365 + yoe div 4 - yoe div 100 + doy
      in era * 146097 + doe - 719468)"

definition civil_from_days :: "int \<Rightarrow> int \<times> int \<times> int" where
  "civil_from_days z =
     (let z' = z + 719468;
          era = z' div 146097;
          doe = z' - era * 146097;
          yoe = (doe - doe div 1460 + doe div 36524 - doe div 146096) div 365;
          doy = doe - (365 * yoe + yoe div 4 - yoe div 100);
          mp = (5 * doy + 2) div 153;
          d = doy - (153 * mp + 2) div 5 + 1;
          m = (if mp < 10 then mp + 3 else mp - 9);
          y = yoe + era * 400
      in (if m \<le> 2 then y + 1 else y, m, d))"

definition isLeap :: "int \<Rightarrow> bool" where
  "isLeap year = (year mod 4 = 0 \<and> (year mod 100 \<noteq> 0 \<or> year mod 400 = 0))"

definition daysIn :: "int \<Rightarrow> int \<Rightarrow> int" where
  "daysIn m year =
     (if m = 2 then (if isLeap year then 29 else 28)
      else if m = 4 \<or> m = 6 \<or> m = 9 \<or> m = 11 then 30
      else 31)"

text \<open>
  \<^verbatim>\<open>time.Date\<close> for fields that are in range, which is all that
  \<^verbatim>\<open>time.Parse\<close> passes to it: the instant whose wall clock reads the fields in
  a zone \<open>off\<close> seconds east of UTC.
\<close>

definition Date :: "int \<Rightarrow> int \<Rightarrow> int \<Rightarrow> int \<Rightarrow> int \<Rightarrow> int \<Rightarrow> int \<Rightarrow> int \<Rightarrow> Time" where
  "Date year month day hour minute sec ns off =
     \<lparr>unix_sec = days_from_civil year month day * 86400 + hour * 3600 + minute * 60 + sec - off,
      nsec = ns, zone_offset = off\<rparr>"

definition UTC :: "Time \<Rightarrow> Time" where
  "UTC t = t\<lparr>zone_offset := 0\<rparr>"

text \<open>The pieces of \<^verbatim>\<open>time.Parse\<close>: \<^verbatim>\<open>getnum\<close>, \<^verbatim>\<open>skip\<close>, the chunks of the layout.\<close>

definition getnum :: "string \<Rightarrow> bool \<Rightarrow> (int \<times> string) option" where
  "getnum s fixed =
     (case s of
        [] \<Rightarrow> None
      | c # cs \<Rightarrow>
          if \<not> is_digit c then None
          else (case cs of
                  [] \<Rightarrow> if fixed then None else Some (int (digit_val c), cs)
                | c' # cs' \<Rightarrow>
                    if \<not> is_digit c' then (if fixed then None else Some (int (digit_val c), cs))
                    else Some (int (digit_val c) * 10 + int (digit_val c'), cs')))"

definition skip_char :: "char \<Rightarrow> string \<Rightarrow> string option" where
  "skip_char p s = (case s of [] \<Rightarrow> None | c # cs \<Rightarrow> if c = p then Some cs else None)"

definition parse_year :: "string \<Rightarrow> (int \<times> string) option" where
  "parse_year s =
     (if length s < 4 \<or> \<not> list_all is_digit (take 4 s) then None
      else Some (int (dec_val (take 4 s)), drop 4 s))"

definition commaOrPeriod :: "char \<Rightarrow> bool" where
  "commaOrPeriod c = (c = CHR ''.'' \<or> c = CHR '','')"

text \<open>
  The chunk \<^verbatim>\<open>.999999999\<close>: a fraction is read when a period or comma and a digit
  follow; all its digits are consumed, the first nine give the nanoseconds.
\<close>

definition parse_frac :: "string \<Rightarrow> int \<times> string" where
  "parse_frac s =
     (case s of
        c # d # ds \<Rightarrow>
          if commaOrPeriod c \<and> is_digit d then
            (let digits = d # takeWhile is_digit ds;
                 used = take 9 digits
             in (int (dec_val used) * 10 ^ (9 - length used), dropWhile is_digit ds))
          else (0, s)
      | _ \<Rightarrow> (0, s))"

text \<open>
  The chunk \<^verbatim>\<open>Z07:00\<close>: \<open>Z\<close> is UTC; otherwise a sign, two digits, a colon and
  two digits, the hours at most 24 and the minutes at most 60. The result is the
  offset in seconds.
\<close>

definition parse_zone :: "string \<Rightarrow> (int \<times> string) option" where
  "parse_zone s =
     (case s of
        [] \<Rightarrow> None
      | c # cs \<Rightarrow>
          if c = CHR ''Z'' then Some (0, cs)
          else if length s < 6 \<or> s ! 3 \<noteq> CHR '':'' then None
          else
            (case getnum (take 2 cs) True of
               None \<Rightarrow> None
             | Some (hr, _) \<Rightarrow>
                 (case getnum (take 2 (drop 4 s)) True of
                    None \<Rightarrow> None
                  | Some (mm, _) \<Rightarrow>
                      if hr > 24 \<or> mm > 60 then None
                      else if c = CHR ''+'' then Some ((hr * 60 + mm) * 60, drop 6 s)
                      else if c = CHR ''-'' then Some (- ((hr * 60 + mm) * 60), drop 6 s)
                      else None)))"

text \<open>
  \<^verbatim>\<open>time.Parse(time.RFC3339Nano, value)\<close>, the layout being
  \<^verbatim>\<open>2006-01-02T15:04:05.999999999Z07:00\<close>: four digits of year, two of month
  (1 to 12), two of day, one or two of hour (below 24), two of minute and two of
  second (below 60), the optional fraction, the zone, and nothing after it; the day
  must exist in its month.
\<close>

definition time_Parse_RFC3339Nano :: "string \<Rightarrow> Time option" where
  "time_Parse_RFC3339Nano v0 =
     do {
       (year, v1) \<leftarrow> parse_year v0;
       v2 \<leftarrow> skip_char (CHR ''-'') v1;
       (month, v3) \<leftarrow> getnum v2 True;
       v4 \<leftarrow> (if month \<le> 0 \<or> 12 < month then None else skip_char (CHR ''-'') v3);
       (day, v5) \<leftarrow> getnum v4 True;
       v6 \<leftarrow> skip_char (CHR ''T'') v5;
       (hour, v7) \<leftarrow> getnum v6 False;
       v8 \<leftarrow> (if 24 \<le> hour then None else skip_char (CHR '':'') v7);
       (minute, v9) \<leftarrow> getnum v8 True;
       v10 \<leftarrow> (if 60 \<le> minute then None else skip_char (CHR '':'') v9);
       (sec, v11) \<leftarrow> getnum v10 True;
       (ns, v12) \<leftarrow> (if 60 \<le> sec then None else Some (parse_frac v11));
       (off, v13) \<leftarrow> parse_zone v12;
       if v13 \<noteq> [] then None
       else if day < 1 \<or> day > daysIn month year then None
       else Some (Date year month day hour minute sec ns off)
     }"

text \<open>\<^verbatim>\<open>appendInt\<close>: decimal digits, padded with zeros to the width.\<close>

fun digits_of :: "nat \<Rightarrow> string" where
  "digits_of n = (if n < 10 then [char_of (48 + n)] else digits_of (n div 10) @ [char_of (48 + n mod 10)])"

declare digits_of.simps [simp del]

definition appendInt :: "int \<Rightarrow> nat \<Rightarrow> string" where
  "appendInt x width =
     (let ds = digits_of (nat \<bar>x\<bar>)
      in (if x < 0 then ''-'' else []) @ replicate (width - length ds) (CHR ''0'') @ ds)"

text \<open>\<^verbatim>\<open>appendNano\<close> for \<^verbatim>\<open>.999999999\<close>: nothing for 0, else no trailing zeros.\<close>

definition strip_zeros :: "string \<Rightarrow> string" where
  "strip_zeros s = rev (dropWhile (\<lambda>c. c = CHR ''0'') (rev s))"

definition appendNano :: "int \<Rightarrow> string" where
  "appendNano ns = (if ns = 0 then [] else CHR ''.'' # strip_zeros (appendInt ns 9))"

definition Format_RFC3339Nano :: "Time \<Rightarrow> string" where
  "Format_RFC3339Nano t =
     (let local = unix_sec t + zone_offset t;
          secs = local mod 86400;
          zone = \<bar>zone_offset t\<bar> div 60
      in case civil_from_days (local div 86400) of
           (year, month, day) \<Rightarrow>
             appendInt year 4 @ ''-'' @ appendInt month 2 @ ''-'' @ appendInt day 2 @ ''T''
             @ appendInt (secs div 3600) 2 @ '':'' @ appendInt (secs mod 3600 div 60) 2 @ '':''
             @ appendInt (secs mod 60) 2 @ appendNano (nsec t)
             @ (if zone_offset t = 0 then ''Z''
                else (if zone_offset t < 0 then ''-'' else ''+'')
                     @ appendInt (zone div 60) 2 @ '':'' @ appendInt (zone mod 60) 2))"

subsection \<open>The decoder\<close>

definition requiredEventKeys :: "string list" where
  "requiredEventKeys = [''schemaVersion'', ''id'', ''timestamp'', ''sourceType'', ''projectRoot'',
     ''phpSapi'', ''requestId'', ''isDd'', ''payloadFormat'', ''payload'', ''trace'', ''host'']"

text \<open>Indexing a Go map: the zero value (no bytes) for a key it does not hold.\<close>

definition map_index :: "(string \<rightharpoonup> string) \<Rightarrow> string \<Rightarrow> string" where
  "map_index raw k = (case raw k of None \<Rightarrow> [] | Some r \<Rightarrow> r)"

definition is_Inl :: "'a + 'b \<Rightarrow> bool" where
  "is_Inl x = (case x of Inl _ \<Rightarrow> True | Inr _ \<Rightarrow> False)"

definition validateRequiredKeys :: "(string \<rightharpoonup> string) \<Rightarrow> error option" where
  "validateRequiredKeys raw =
     (case List.find (\<lambda>key. raw key = None) requiredEventKeys of
        Some key \<Rightarrow> Some (fmt_Errorf (''missing required dump event field: '' @ key))
      | None \<Rightarrow>
          if map_index raw ''requestId'' \<noteq> ''null''
             \<and> is_Inl (json_Unmarshal decode_string [] (map_index raw ''requestId''))
          then Some (errors_New ''requestId must be null or string'')
          else if is_Inl (json_Unmarshal decode_bool False (map_index raw ''isDd''))
          then Some (errors_New ''isDd must be a boolean'')
          else if map_index raw ''trace'' = ''null''
          then Some (errors_New ''trace must be an array'')
          else if is_Inl (json_Unmarshal decode_raw_slice None (map_index raw ''trace''))
          then Some (errors_New ''trace must be an array'')
          else None)"

definition validateEvent :: "Event \<Rightarrow> error option" where
  "validateEvent event =
     (if SchemaVersion event \<noteq> dump_SchemaVersion then Some ErrUnsupportedSchemaVersion
      else if ID event = [] \<or> Timestamp event = [] \<or> SourceType event = []
              \<or> ProjectRoot event = [] \<or> PHPSAPI event = [] \<or> PayloadFormat event = []
              \<or> length (Payload event) = 0
      then Some (errors_New ''missing required dump event fields'')
      else if Hostname (Host event) = [] \<or> PID (Host event) \<le> 0
      then Some (errors_New ''invalid host metadata'')
      else
        (case time_Parse_RFC3339Nano (Timestamp event) of
           None \<Rightarrow> Some (errors_New ''timestamp must be RFC3339Nano'')
         | Some timestamp \<Rightarrow>
             if Format_RFC3339Nano (UTC timestamp) \<noteq> Timestamp event
             then Some (errors_New ''timestamp must be UTC (Z)'')
             else if SourceType event \<notin> {''http'', ''cli'', ''worker'', ''cron''}
             then Some (errors_New ''sourceType must be one of: http, cli, worker, cron'')
             else if PayloadFormat event \<noteq> ''json''
             then Some (errors_New ''payloadFormat must be json for schemaVersion 1'')
             else
               (case (if SourceType event = ''http'' then
                        (case HTTP event of
                           None \<Rightarrow>
                             Some (errors_New ''http metadata is required when sourceType is http'')
                         | Some h \<Rightarrow>
                             if Method h = [] \<or> Scheme h = [] \<or> HTTP_Host h = [] \<or> Path h = []
                             then Some (errors_New ''http metadata is missing required fields'')
                             else None)
                      else
                        (case Command event of
                           None \<Rightarrow>
                             Some (errors_New
                               ''command metadata is required when sourceType is cli, worker, or cron'')
                         | Some c \<Rightarrow>
                             if Name c = []
                             then Some (errors_New
                               ''command metadata is missing required field: name'')
                             else None)) of
                  Some err \<Rightarrow> Some err
                | None \<Rightarrow>
                    if \<not> json_Valid (Payload event)
                    then Some (errors_New ''payload must be valid JSON'')
                    else None)))"

text \<open>
  \<^verbatim>\<open>DecodeNDJSONLine\<close> returns a pointer to the event and an error: the pair of
  an \<^typ>\<open>Event option\<close> and an \<^typ>\<open>error option\<close>, \<open>None\<close> being \<^verbatim>\<open>nil\<close>.
\<close>

definition DecodeNDJSONLine :: "string \<Rightarrow> Event option \<times> error option" where
  "DecodeNDJSONLine line =
     (let trimmed = TrimSpace line
      in if trimmed = [] then (None, None)
         else
           (case json_Unmarshal decode_raw_map Map.empty trimmed of
              Inl err \<Rightarrow> (None, Some err)
            | Inr raw \<Rightarrow>
                (case validateRequiredKeys raw of
                   Some err \<Rightarrow> (None, Some err)
                 | None \<Rightarrow>
                     (case json_Unmarshal decode_Event zero_Event trimmed of
                        Inl err \<Rightarrow> (None, Some err)
                      | Inr event \<Rightarrow>
                          (case validateEvent event of
                             Some err \<Rightarrow> (None, Some err)
                           | None \<Rightarrow> (Some event, None))))))"

subsection \<open>The stages of the decoder\<close>

text \<open>
  \<open>typed_event line\<close> is the event that \<^verbatim>\<open>DecodeNDJSONLine\<close> hands to
  \<^verbatim>\<open>validateEvent\<close>: the line is not blank, it parses into the raw map, the
  presence and coarse type checks pass, and it parses into the typed structure.
  It is \<open>None\<close> when the decoder returns before that.
\<close>

definition typed_event :: "string \<Rightarrow> Event option" where
  "typed_event line =
     (let trimmed = TrimSpace line
      in if trimmed = [] then None
         else
           (case json_Unmarshal decode_raw_map Map.empty trimmed of
              Inl err \<Rightarrow> None
            | Inr raw \<Rightarrow>
                (case validateRequiredKeys raw of
                   Some err \<Rightarrow> None
                 | None \<Rightarrow>
                     (case json_Unmarshal decode_Event zero_Event trimmed of
                        Inl err \<Rightarrow> None
                      | Inr event \<Rightarrow> Some event))))"

lemma Decode_typed_event:
  "typed_event line = Some event \<Longrightarrow>
     DecodeNDJSONLine line =
       (case validateEvent event of Some err \<Rightarrow> (None, Some err) | None \<Rightarrow> (Some event, None))"
  by (auto simp: typed_event_def DecodeNDJSONLine_def Let_def
           split: if_splits sum.splits option.splits)

lemma Decode_returns_event:
  "DecodeNDJSONLine line = (Some event, err) \<Longrightarrow>
     typed_event line = Some event \<and> validateEvent event = None \<and> err = None"
  by (auto simp: typed_event_def DecodeNDJSONLine_def Let_def
           split: if_splits sum.splits option.splits)

subsection \<open>Example lines\<close>

text \<open>
  Concrete lines, and the events the decoder builds from them, on which the
  theorems below are instantiated.
\<close>

definition L_v2 :: string where
  \<open>L_v2 = ''{"schemaVersion":2,"id":"","timestamp":"yesterday","sourceType":"job","projectRoot":"/x","phpSapi":"cli","requestId":null,"isDd":false,"payloadFormat":"text","payload":{"k":"v"},"trace":[],"host":{"hostname":"","pid":0}}''\<close>

definition E_v2 :: Event where
  \<open>E_v2 = \<lparr>SchemaVersion = 2, ID = [], Timestamp = ''yesterday'', SourceType = ''job'',
     ProjectRoot = ''/x'', PHPSAPI = ''cli'', RequestID = None, HTTP = None, Command = None,
     IsDD = False, PayloadFormat = ''text'', Payload = ''{"k":"v"}'', Trace = Some [],
     Host = \<lparr>Hostname = [], PID = 0\<rparr>\<rparr>\<close>

definition L_offset :: string where
  \<open>L_offset = ''{"schemaVersion":1,"id":"a","timestamp":"2026-02-28T12:20:31.331+01:00","sourceType":"cli","projectRoot":"/x","phpSapi":"cli","requestId":null,"command":{"name":"artisan"},"isDd":false,"payloadFormat":"json","payload":{"k":"v"},"trace":[],"host":{"hostname":"h","pid":1}}''\<close>

definition E_offset :: Event where
  \<open>E_offset = \<lparr>SchemaVersion = 1, ID = ''a'', Timestamp = ''2026-02-28T12:20:31.331+01:00'',
     SourceType = ''cli'', ProjectRoot = ''/x'', PHPSAPI = ''cli'', RequestID = None,
     HTTP = None, Command = Some \<lparr>Name = ''artisan'', Args = None, Cwd = []\<rparr>,
     IsDD = False, PayloadFormat = ''json'', Payload = ''{"k":"v"}'', Trace = Some [],
     Host = \<lparr>Hostname = ''h'', PID = 1\<rparr>\<rparr>\<close>

definition L_nohttp :: string where
  \<open>L_nohttp = ''{"schemaVersion":1,"id":"a","timestamp":"2026-02-28T11:20:31.331Z","sourceType":"http","projectRoot":"/x","phpSapi":"fpm-fcgi","requestId":"r","isDd":false,"payloadFormat":"json","payload":{"k":"v"},"trace":[],"host":{"hostname":"h","pid":1}}''\<close>

definition E_nohttp :: Event where
  \<open>E_nohttp = \<lparr>SchemaVersion = 1, ID = ''a'', Timestamp = ''2026-02-28T11:20:31.331Z'',
     SourceType = ''http'', ProjectRoot = ''/x'', PHPSAPI = ''fpm-fcgi'', RequestID = Some ''r'',
     HTTP = None, Command = None, IsDD = False, PayloadFormat = ''json'',
     Payload = ''{"k":"v"}'', Trace = Some [], Host = \<lparr>Hostname = ''h'', PID = 1\<rparr>\<rparr>\<close>

definition L_missing :: string where
  \<open>L_missing = ''{"schemaVersion":1,"timestamp":"2026-02-28T11:20:31.331Z","host":{}}''\<close>

definition L_both :: string where
  \<open>L_both = ''{"schemaVersion":1,"id":"a","timestamp":"2026-02-28T11:20:31.331Z","sourceType":"http","projectRoot":"/x","phpSapi":"fpm-fcgi","requestId":"r","http":{"method":"GET","scheme":"https","host":"example.test","path":"/"},"command":{"name":"artisan"},"isDd":false,"payloadFormat":"json","payload":{"k":"v"},"trace":[{"file":"a.php","line":-5}],"host":{"hostname":"h","pid":1}}''\<close>

definition E_both :: Event where
  \<open>E_both = \<lparr>SchemaVersion = 1, ID = ''a'', Timestamp = ''2026-02-28T11:20:31.331Z'',
     SourceType = ''http'', ProjectRoot = ''/x'', PHPSAPI = ''fpm-fcgi'', RequestID = Some ''r'',
     HTTP = Some \<lparr>Method = ''GET'', Scheme = ''https'', HTTP_Host = ''example.test'',
       Path = ''/'', Query = [], StatusCode = None, ClientIP = [], UserAgent = []\<rparr>,
     Command = Some \<lparr>Name = ''artisan'', Args = None, Cwd = []\<rparr>,
     IsDD = False, PayloadFormat = ''json'', Payload = ''{"k":"v"}'',
     Trace = Some [\<lparr>File = ''a.php'', Line = - 5, Func = []\<rparr>],
     Host = \<lparr>Hostname = ''h'', PID = 1\<rparr>\<rparr>\<close>

definition L_cli :: string where
  \<open>L_cli = ''{"schemaVersion":1,"id":"a","timestamp":"2026-02-28T11:20:31.331Z","sourceType":"cli","projectRoot":"/x","phpSapi":"cli","requestId":null,"command":{"name":"artisan"},"isDd":false,"payloadFormat":"json","payload":{"k":"v"},"trace":[],"host":{"hostname":"h","pid":1}}''\<close>

definition E_cli :: Event where
  \<open>E_cli = \<lparr>SchemaVersion = 1, ID = ''a'', Timestamp = ''2026-02-28T11:20:31.331Z'',
     SourceType = ''cli'', ProjectRoot = ''/x'', PHPSAPI = ''cli'', RequestID = None,
     HTTP = None, Command = Some \<lparr>Name = ''artisan'', Args = None, Cwd = []\<rparr>,
     IsDD = False, PayloadFormat = ''json'', Payload = ''{"k":"v"}'', Trace = Some [],
     Host = \<lparr>Hostname = ''h'', PID = 1\<rparr>\<rparr>\<close>



definition L_hour :: string where
  \<open>L_hour = ''{"schemaVersion":1,"id":"a","timestamp":"2026-02-28T1:20:31Z","sourceType":"cli","projectRoot":"/x","phpSapi":"cli","requestId":null,"command":{"name":"artisan"},"isDd":false,"payloadFormat":"json","payload":{"k":"v"},"trace":[],"host":{"hostname":"h","pid":1}}''\<close>

definition E_hour :: Event where
  \<open>E_hour = \<lparr>SchemaVersion = 1, ID = ''a'', Timestamp = ''2026-02-28T1:20:31Z'',
     SourceType = ''cli'', ProjectRoot = ''/x'', PHPSAPI = ''cli'', RequestID = None,
     HTTP = None, Command = Some \<lparr>Name = ''artisan'', Args = None, Cwd = []\<rparr>,
     IsDD = False, PayloadFormat = ''json'', Payload = ''{"k":"v"}'', Trace = Some [],
     Host = \<lparr>Hostname = ''h'', PID = 1\<rparr>\<rparr>\<close>


definition L_twice :: string where
  \<open>L_twice = ''{"schemaVersion":1,"id":"a","ID":"","timestamp":"2026-02-28T11:20:31.331Z","sourceType":"cli","projectRoot":"/x","phpSapi":"cli","requestId":null,"command":{"name":"artisan"},"isDd":false,"payloadFormat":"json","payload":{"k":"v"},"trace":[],"host":{"hostname":"h","pid":1}}''\<close>

lemma find_first:
  assumes "key \<in> set xs" "P key" "\<forall>k \<in> set (takeWhile (\<lambda>k. k \<noteq> key) xs). \<not> P k"
  shows "List.find P xs = Some key"
  using assms by (induction xs) auto

lemma foldl_raw_map:
  "foldl (\<lambda>m (k, raw, v). m(k \<mapsto> raw)) m0 ms k' = None
     \<longleftrightarrow> m0 k' = None \<and> k' \<notin> fst ` set ms"
  by (induction ms arbitrary: m0) (auto split: prod.splits)

lemma parse_top_Nil: "parse_top [] = None"
  by (simp add: parse_top_def skip_ws_def parse_value.simps)

lemma space_width_0:
  assumes "\<forall>e \<in> set encs. e \<noteq> [] \<and> hd e \<noteq> b"
  shows "space_width encs (b # bs) = 0"
proof -
  have "List.find (\<lambda>e. take (length e) (b # bs) = e) encs = None"
    unfolding find_None_iff
  proof (intro notI, elim exE conjE)
    fix e assume e: "e \<in> set encs" "take (length e) (b # bs) = e"
    with assms obtain x xs where "e = x # xs" "x \<noteq> b" by (cases e) auto
    with e(2) show False by simp
  qed
  then show ?thesis by (simp add: space_width_def)
qed

lemma trim_front_keep:
  assumes "\<forall>e \<in> set encs. e \<noteq> [] \<and> hd e \<noteq> byte c"
  shows "trim_front encs (c # cs) = c # cs"
  using space_width_0[OF assms] by simp

lemma space_encodings_ends:
  "\<forall>e \<in> set space_encodings. e \<noteq> [] \<and> (hd e \<le> 32 \<or> 128 \<le> hd e) \<and> (last e \<le> 32 \<or> 128 \<le> last e)"
  by (simp add: space_encodings_def)

lemma TrimSpace_id:
  assumes "s \<noteq> []" "32 < byte (hd s)" "byte (hd s) < 128" "32 < byte (last s)" "byte (last s) < 128"
  shows "TrimSpace s = s"
proof -
  obtain c cs where s: "s = c # cs" using assms(1) by (cases s) auto
  have "TrimLeftSpace s = s"
    unfolding TrimLeftSpace_def s
    by (rule trim_front_keep) (use space_encodings_ends assms(2,3) s in fastforce)
  moreover have "TrimRightSpace s = s"
  proof -
    have r: "rev s = last s # rev (butlast s)"
      using assms(1) by (metis append_butlast_last_id rev.simps(2) rev_append rev_rev_ident append_Nil rev.simps(1) append_Cons)
    have "trim_front (map rev space_encodings) (last s # rev (butlast s)) = last s # rev (butlast s)"
      by (rule trim_front_keep) (use space_encodings_ends assms(4,5) in \<open>fastforce simp: hd_rev\<close>)
    then show ?thesis unfolding TrimRightSpace_def r[symmetric] by simp
  qed
  ultimately show ?thesis by (simp add: TrimSpace_def)
qed

lemma TrimSpace_spaces: "TrimSpace ''   '' = []"
  by (simp add: TrimSpace_def TrimLeftSpace_def TrimRightSpace_def space_width_def
        space_encodings_def byte_def)

lemma typed_event_parse:
  "typed_event line =
     (case parse_top (TrimSpace line) of
        None \<Rightarrow> None
      | Some j \<Rightarrow>
          (case decode_raw_map Map.empty j of
             (raw, e) \<Rightarrow>
               if e then None
               else (case validateRequiredKeys raw of
                       Some err \<Rightarrow> None
                     | None \<Rightarrow>
                         (case decode_Event zero_Event j of
                            (ev, e') \<Rightarrow> if e' then None else Some ev))))"
  by (auto simp: typed_event_def json_Unmarshal_def Let_def parse_top_Nil
           split: option.splits prod.splits sum.splits)

lemmas parse_eval = parse_value.simps parse_elems.simps parse_members.simps skip_ws_def is_ws_def
  byte_def is_digit_def scan_literal_def scan_number_def scan_int_part_def scan_frac_def
  scan_exp_def scan_exp_digits_def cons_out_def Let_def maxNestingDepth_def parse_top_def
  replacement_char_def is_hex_def simple_escape_def

lemmas decode_eval = json_Unmarshal_def decode_raw_map_def decode_raw_slice_def decode_Event_def
  decode_struct_def Event_member_def find_field_def Event_fields_def decode_string_def decode_int_def
  decode_bool_def decode_ptr_def decode_slice_def decode_HTTPMeta_def decode_CommandMeta_def
  decode_TraceFrame_def decode_HostMeta_def HTTPMeta_member_def CommandMeta_member_def
  TraceFrame_member_def HostMeta_member_def HTTPMeta_fields_def CommandMeta_fields_def
  TraceFrame_fields_def HostMeta_fields_def ParseInt64_def dec_val_def digit_val_def
  zero_Event_def zero_HTTPMeta_def zero_CommandMeta_def zero_TraceFrame_def zero_HostMeta_def
  validateRequiredKeys_def requiredEventKeys_def map_index_def is_Inl_def list_all_iff

lemmas time_eval = time_Parse_RFC3339Nano_def parse_year_def getnum_def skip_char_def
  parse_frac_def parse_zone_def commaOrPeriod_def daysIn_def isLeap_def Date_def
  days_from_civil_def dec_val_def digit_val_def is_digit_def byte_def Let_def list_all_iff

lemma char_of_nat_eval:
  "char_of (n::nat) = Char (odd n) (odd (n div 2)) (odd (n div 4)) (odd (n div 8))
     (odd (n div 16)) (odd (n div 32)) (odd (n div 64)) (odd (n div 128))"
  by (simp add: char_of_def bit_iff_odd_drop_bit drop_bit_eq_div)

lemma replicate_eval: "replicate n x = (if n = 0 then [] else x # replicate (n - 1) x)"
  by (cases n) simp_all

lemmas format_eval = Format_RFC3339Nano_def UTC_def appendInt_def appendNano_def
  strip_zeros_def digits_of.simps char_of_nat_eval replicate_eval

subsection \<open>The decoder on the example lines\<close>

lemma TrimSpace_L_v2: "TrimSpace L_v2 = L_v2"
  by (rule TrimSpace_id) (simp_all add: L_v2_def byte_def)

lemma typed_L_v2: "typed_event L_v2 = Some E_v2"
  unfolding typed_event_parse TrimSpace_L_v2
  unfolding L_v2_def E_v2_def
  by (simp add: parse_eval decode_eval)

lemma TrimSpace_L_offset: "TrimSpace L_offset = L_offset"
  by (rule TrimSpace_id) (simp_all add: L_offset_def byte_def)

lemma typed_L_offset: "typed_event L_offset = Some E_offset"
  unfolding typed_event_parse TrimSpace_L_offset
  unfolding L_offset_def E_offset_def
  by (simp add: parse_eval decode_eval)

lemma TrimSpace_L_nohttp: "TrimSpace L_nohttp = L_nohttp"
  by (rule TrimSpace_id) (simp_all add: L_nohttp_def byte_def)

lemma typed_L_nohttp: "typed_event L_nohttp = Some E_nohttp"
  unfolding typed_event_parse TrimSpace_L_nohttp
  unfolding L_nohttp_def E_nohttp_def
  by (simp add: parse_eval decode_eval)

lemma TrimSpace_L_both: "TrimSpace L_both = L_both"
  by (rule TrimSpace_id) (simp_all add: L_both_def byte_def)

lemma typed_L_both: "typed_event L_both = Some E_both"
  unfolding typed_event_parse TrimSpace_L_both
  unfolding L_both_def E_both_def
  by (simp add: parse_eval decode_eval)

lemma json_Valid_kv: \<open>json_Valid ''{"k":"v"}''\<close>
  by (simp add: json_Valid_def parse_eval)

lemma time_example_parse:
  "time_Parse_RFC3339Nano ''2026-02-28T11:20:31.331Z''
     = Some \<lparr>unix_sec = 1772277631, nsec = 331000000, zone_offset = 0\<rparr>"
  by (simp add: time_eval)

lemma civil_example: "civil_from_days 20512 = (2026, 2, 28)"
  by code_simp

lemma time_example_format:
  "Format_RFC3339Nano (UTC \<lparr>unix_sec = 1772277631, nsec = 331000000, zone_offset = z\<rparr>)
     = ''2026-02-28T11:20:31.331Z''"
  by (simp add: format_eval civil_example)

lemmas time_example = time_example_parse time_example_format

lemma time_example_offset:
  "time_Parse_RFC3339Nano ''2026-02-28T12:20:31.331+01:00''
     = Some \<lparr>unix_sec = 1772277631, nsec = 331000000, zone_offset = 3600\<rparr>"
  by (simp add: time_eval)

lemma Decode_L_both: "DecodeNDJSONLine L_both = (Some E_both, None)"
  unfolding Decode_typed_event[OF typed_L_both]
  by (simp add: validateEvent_def E_both_def dump_SchemaVersion_def time_example json_Valid_kv)

lemma TrimSpace_L_missing: "TrimSpace L_missing = L_missing"
  by (rule TrimSpace_id) (simp_all add: L_missing_def byte_def)

lemma parse_L_missing:
  \<open>parse_top L_missing = Some (JObject
     [(''schemaVersion'', ''1'', JNumber ''1''),
      (''timestamp'', ''"2026-02-28T11:20:31.331Z"'', JString ''2026-02-28T11:20:31.331Z''),
      (''host'', ''{}'', JObject [])])\<close>
  unfolding L_missing_def by (simp add: parse_eval)

lemma TrimSpace_L_cli: "TrimSpace L_cli = L_cli"
  by (rule TrimSpace_id) (simp_all add: L_cli_def byte_def)

lemma typed_L_cli: "typed_event L_cli = Some E_cli"
  unfolding typed_event_parse TrimSpace_L_cli
  unfolding L_cli_def E_cli_def
  by (simp add: parse_eval decode_eval)

lemma Decode_L_cli: "DecodeNDJSONLine L_cli = (Some E_cli, None)"
  unfolding Decode_typed_event[OF typed_L_cli]
  by (simp add: validateEvent_def E_cli_def dump_SchemaVersion_def time_example json_Valid_kv)

lemma Decode_parse:
  "DecodeNDJSONLine line =
     (if TrimSpace line = [] then (None, None)
      else
        (case parse_top (TrimSpace line) of
           None \<Rightarrow> (None, Some SyntaxError)
         | Some j \<Rightarrow>
             (case decode_raw_map Map.empty j of
                (raw, e) \<Rightarrow>
                  if e then (None, Some UnmarshalTypeError)
                  else (case validateRequiredKeys raw of
                          Some err \<Rightarrow> (None, Some err)
                        | None \<Rightarrow>
                            (case decode_Event zero_Event j of
                               (ev, e') \<Rightarrow>
                                 if e' then (None, Some UnmarshalTypeError)
                                 else (case validateEvent ev of
                                         Some err \<Rightarrow> (None, Some err)
                                       | None \<Rightarrow> (Some ev, None)))))))"
  by (auto simp: DecodeNDJSONLine_def json_Unmarshal_def Let_def
           split: option.splits prod.splits sum.splits)





lemma TrimSpace_L_hour: "TrimSpace L_hour = L_hour"
  by (rule TrimSpace_id) (simp_all add: L_hour_def byte_def)

lemma typed_L_hour: "typed_event L_hour = Some E_hour"
  unfolding typed_event_parse TrimSpace_L_hour
  unfolding L_hour_def E_hour_def
  by (simp add: parse_eval decode_eval)

lemma time_hour_parse:
  "time_Parse_RFC3339Nano ''2026-02-28T1:20:31Z''
     = Some \<lparr>unix_sec = 1772241631, nsec = 0, zone_offset = 0\<rparr>"
  by (simp add: time_eval)

lemma time_hour_format:
  "Format_RFC3339Nano (UTC \<lparr>unix_sec = 1772241631, nsec = 0, zone_offset = 0\<rparr>)
     = ''2026-02-28T01:20:31Z''"
  by (simp add: format_eval civil_example)


lemma TrimSpace_L_twice: "TrimSpace L_twice = L_twice"
  by (rule TrimSpace_id) (simp_all add: L_twice_def byte_def)

lemma Decode_L_twice:
  "DecodeNDJSONLine L_twice = (None, Some (errors_New ''missing required dump event fields''))"
  unfolding Decode_parse TrimSpace_L_twice
  unfolding L_twice_def
  by (simp add: parse_eval decode_eval validateEvent_def dump_SchemaVersion_def
        char_of_nat_eval)

subsection \<open>The parser reads a value from its own bytes\<close>

text \<open>
  What may follow a number literal without changing how the literal is read:
  \<open>nonext\<close> is an input that does not go on with a digit, a point or an exponent
  mark, \<open>no_digit\<close> one that does not go on with a digit.
\<close>

definition nonext :: "string \<Rightarrow> bool" where
  "nonext r = (case r of [] \<Rightarrow> True
                | c # _ \<Rightarrow> \<not> is_digit c \<and> c \<noteq> CHR ''.'' \<and> c \<noteq> CHR ''e'' \<and> c \<noteq> CHR ''E'')"

definition no_digit :: "string \<Rightarrow> bool" where
  "no_digit r = (case r of [] \<Rightarrow> True | c # _ \<Rightarrow> \<not> is_digit c)"

lemma takeWhile_append_stop:
  "list_all P xs \<Longrightarrow> (case r of [] \<Rightarrow> True | c # _ \<Rightarrow> \<not> P c) \<Longrightarrow> takeWhile P (xs @ r) = xs"
  by (induction xs) (auto split: list.splits)

lemma dropWhile_append_stop:
  "list_all P xs \<Longrightarrow> (case r of [] \<Rightarrow> True | c # _ \<Rightarrow> \<not> P c) \<Longrightarrow> dropWhile P (xs @ r) = r"
  by (induction xs) (auto split: list.splits)

lemma list_all_takeWhile: "list_all P (takeWhile P xs)"
  by (induction xs) auto

lemma digits_append_stop:
  "no_digit x \<Longrightarrow> takeWhile is_digit (takeWhile is_digit cs @ x) = takeWhile is_digit cs"
  "no_digit x \<Longrightarrow> dropWhile is_digit (takeWhile is_digit cs @ x) = x"
  by (simp_all add: no_digit_def takeWhile_append_stop dropWhile_append_stop list_all_takeWhile)

lemma not_digit_chars [simp]:
  "\<not> is_digit (CHR ''.'')" "\<not> is_digit (CHR ''e'')" "\<not> is_digit (CHR ''E'')"
  "\<not> is_digit (CHR ''+'')" "\<not> is_digit (CHR ''-'')" "is_digit (CHR ''0'')"
  by (simp_all add: is_digit_def byte_def)

lemma scan_int_part_local:
  assumes "scan_int_part s = Some (a, r)"
  shows "s = a @ r \<and> a \<noteq> [] \<and> (\<forall>x. no_digit x \<longrightarrow> scan_int_part (a @ x) = Some (a, x))"
proof (cases s)
  case Nil
  with assms show ?thesis by (simp add: scan_int_part_def)
next
  case (Cons c cs)
  show ?thesis
  proof (cases "c = CHR ''0''")
    case True
    with Cons assms show ?thesis by (auto simp: scan_int_part_def)
  next
    case False
    with Cons assms have a: "a = c # takeWhile is_digit cs" and r: "r = dropWhile is_digit cs"
      and d: "is_digit c"
      by (auto simp: scan_int_part_def split: if_splits)
    have "scan_int_part (a @ x) = Some (a, x)" if "no_digit x" for x
      using that False d by (simp add: scan_int_part_def a digits_append_stop)
    then show ?thesis using a r Cons by simp
  qed
qed

lemma scan_frac_local:
  assumes "scan_frac s = Some (a, r)"
  shows "s = a @ r \<and> (a = [] \<or> hd a = CHR ''.'')
       \<and> (\<forall>x. (if a = [] then (case x of [] \<Rightarrow> True | c # _ \<Rightarrow> c \<noteq> CHR ''.'') else no_digit x)
               \<longrightarrow> scan_frac (a @ x) = Some (a, x))"
proof -
  have nofrac: "scan_frac x = Some ([], x)" if "case x of [] \<Rightarrow> True | c # _ \<Rightarrow> c \<noteq> CHR ''.''" for x
    using that by (auto simp: scan_frac_def split: list.splits)
  show ?thesis
  proof (cases "\<exists>d ds. s = CHR ''.'' # d # ds")
    case True
    then obtain d ds where s: "s = CHR ''.'' # d # ds" by auto
    with assms have a: "a = CHR ''.'' # d # takeWhile is_digit ds" and r: "r = dropWhile is_digit ds"
      and d: "is_digit d"
      by (auto simp: scan_frac_def split: if_splits)
    have "scan_frac (a @ x) = Some (a, x)" if "no_digit x" for x
      using that d by (simp add: scan_frac_def a digits_append_stop)
    then show ?thesis using a r s by simp
  next
    case False
    with assms have "a = []" "r = s"
      by (auto simp: scan_frac_def split: list.splits if_splits)
    then show ?thesis using nofrac by simp
  qed
qed

lemma scan_exp_digits_local:
  assumes "scan_exp_digits pre s = Some (a, r)"
  shows "\<exists>b. a = pre @ b \<and> s = b @ r \<and> b \<noteq> []
            \<and> (\<forall>x. no_digit x \<longrightarrow> scan_exp_digits pre (b @ x) = Some (a, x))"
proof (cases s)
  case Nil
  with assms show ?thesis by (simp add: scan_exp_digits_def)
next
  case (Cons d ds)
  with assms have a: "a = pre @ d # takeWhile is_digit ds" and r: "r = dropWhile is_digit ds"
    and d: "is_digit d"
    by (auto simp: scan_exp_digits_def split: if_splits)
  have "scan_exp_digits pre ((d # takeWhile is_digit ds) @ x) = Some (a, x)" if "no_digit x" for x
    using that d by (simp add: scan_exp_digits_def a digits_append_stop)
  then show ?thesis using a r Cons by (intro exI[of _ "d # takeWhile is_digit ds"]) simp
qed

lemma scan_exp_local:
  assumes "scan_exp s = Some (a, r)"
  shows "s = a @ r \<and> (a = [] \<or> hd a = CHR ''e'' \<or> hd a = CHR ''E'')
       \<and> (\<forall>x. (if a = [] then (case x of [] \<Rightarrow> True | c # _ \<Rightarrow> c \<noteq> CHR ''e'' \<and> c \<noteq> CHR ''E'')
                 else no_digit x)
               \<longrightarrow> scan_exp (a @ x) = Some (a, x))"
proof (cases "\<exists>c cs. s = c # cs \<and> (c = CHR ''e'' \<or> c = CHR ''E'')")
  case False
  with assms have "a = []" "r = s"
    by (auto simp: scan_exp_def split: list.splits if_splits)
  moreover have "scan_exp x = Some ([], x)"
    if "case x of [] \<Rightarrow> True | c # _ \<Rightarrow> c \<noteq> CHR ''e'' \<and> c \<noteq> CHR ''E''" for x
    using that by (auto simp: scan_exp_def split: list.splits)
  ultimately show ?thesis by simp
next
  case True
  then obtain c cs where s: "s = c # cs" and c: "c = CHR ''e'' \<or> c = CHR ''E''" by auto
  with assms obtain g gs where cs: "cs = g # gs"
    by (cases cs) (auto simp: scan_exp_def)
  show ?thesis
  proof (cases "g = CHR ''+'' \<or> g = CHR ''-''")
    case True
    with assms s c cs have "scan_exp_digits [c, g] gs = Some (a, r)"
      by (auto simp: scan_exp_def)
    from scan_exp_digits_local[OF this] obtain b where
      b: "a = [c, g] @ b" "gs = b @ r" "b \<noteq> []"
        "\<forall>x. no_digit x \<longrightarrow> scan_exp_digits [c, g] (b @ x) = Some (a, x)" by blast
    have "scan_exp (a @ x) = Some (a, x)" if "no_digit x" for x
      using that b c True by (auto simp: scan_exp_def)
    then show ?thesis using b s cs c by auto
  next
    case False
    with assms s c cs have "scan_exp_digits [c] cs = Some (a, r)"
      by (auto simp: scan_exp_def)
    from scan_exp_digits_local[OF this] obtain b where
      b: "a = [c] @ b" "cs = b @ r" "b \<noteq> []"
        "\<forall>x. no_digit x \<longrightarrow> scan_exp_digits [c] (b @ x) = Some (a, x)" by blast
    from b cs False have hb: "hd b = g" "b = g # tl b" by (cases b; auto)+
    have "scan_exp (a @ x) = Some (a, x)" if "no_digit x" for x
    proof -
      have "scan_exp (a @ x) = scan_exp_digits [c] (b @ x)"
        using b c False hb by (cases b) (auto simp: scan_exp_def)
      then show ?thesis using b that by simp
    qed
    then show ?thesis using b s cs c by auto
  qed
qed

lemma nonext_cases:
  "nonext x \<Longrightarrow> no_digit x"
  "nonext x \<Longrightarrow> (case x of [] \<Rightarrow> True | c # _ \<Rightarrow> c \<noteq> CHR ''.'')"
  "nonext x \<Longrightarrow> (case x of [] \<Rightarrow> True | c # _ \<Rightarrow> c \<noteq> CHR ''e'' \<and> c \<noteq> CHR ''E'')"
  by (auto simp: nonext_def no_digit_def split: list.splits)

lemma no_digit_append: "a \<noteq> [] \<Longrightarrow> \<not> is_digit (hd a) \<Longrightarrow> no_digit (a @ x)"
  by (cases a) (auto simp: no_digit_def)

lemma scan_number_local:
  assumes "scan_number s = Some (lit, r)"
  shows "s = lit @ r \<and> lit \<noteq> []
       \<and> (\<forall>x. nonext x \<longrightarrow> scan_number (lit @ x) = Some (lit, x))"
proof -
  define sign where "sign = (case s of c # cs \<Rightarrow> if c = CHR ''-'' then [c] else [] | [] \<Rightarrow> [])"
  define s1 where "s1 = (case s of c # cs \<Rightarrow> if c = CHR ''-'' then cs else s | [] \<Rightarrow> s)"
  have s: "s = sign @ s1" by (auto simp: sign_def s1_def split: list.splits)
  from assms obtain ip s2 fp s3 ep where
    a: "scan_int_part s1 = Some (ip, s2)" and b: "scan_frac s2 = Some (fp, s3)"
    and c: "scan_exp s3 = Some (ep, r)" and lit: "lit = sign @ ip @ fp @ ep"
    by (auto simp: scan_number_def s1_def sign_def split: list.splits if_splits option.splits)
  note A = scan_int_part_local[OF a] and B = scan_frac_local[OF b] and C = scan_exp_local[OF c]
  from A have ipd: "ip \<noteq> []" "hd ip \<noteq> CHR ''-''"
    using a by (auto simp: scan_int_part_def split: list.splits if_splits)
  have "scan_number (lit @ x) = Some (lit, x)" if nx: "nonext x" for x
  proof -
    have 1: "scan_exp (ep @ x) = Some (ep, x)"
      using C nonext_cases[OF nx] by (auto split: if_splits)
    have ndx: "no_digit (ep @ x)"
      by (cases "ep = []") (use C nonext_cases[OF nx] in \<open>auto intro!: no_digit_append\<close>)
    have ndot: "case ep @ x of [] \<Rightarrow> True | c # _ \<Rightarrow> c \<noteq> CHR ''.''"
      using C nonext_cases[OF nx] by (cases ep) (auto split: list.splits)
    have 2: "scan_frac (fp @ ep @ x) = Some (fp, ep @ x)"
      using B ndx ndot by (auto split: if_splits)
    have nd2: "no_digit (fp @ ep @ x)"
      by (cases "fp = []") (use B ndx in \<open>auto intro!: no_digit_append\<close>)
    have 3: "scan_int_part (ip @ fp @ ep @ x) = Some (ip, fp @ ep @ x)"
      using A nd2 by auto
    have 4: "(case lit @ x of c # cs \<Rightarrow> if c = CHR ''-'' then ([c], cs) else ([], lit @ x)
              | [] \<Rightarrow> ([], lit @ x)) = (sign, ip @ fp @ ep @ x)"
      using ipd by (cases ip) (auto simp: lit sign_def split: list.splits)
    show ?thesis
      unfolding scan_number_def 4 Let_def prod.case 3 option.case 2 1
      by (simp add: lit)
  qed
  moreover have "s = lit @ r" using s A B C lit by simp
  ultimately show ?thesis using ipd lit by simp
qed

lemma getu4_nth:
  "getu4 s = (if 6 \<le> length s \<and> s ! 0 = CHR 0x5C \<and> s ! 1 = CHR ''u'' \<and> is_hex (s ! 2)
                 \<and> is_hex (s ! 3) \<and> is_hex (s ! 4) \<and> is_hex (s ! 5)
              then Some (((hex_val (s ! 2) * 16 + hex_val (s ! 3)) * 16 + hex_val (s ! 4)) * 16
                          + hex_val (s ! 5))
              else None)"
proof -
  consider "length s < 6" | b u h1 h2 h3 h4 rest where "s = b # u # h1 # h2 # h3 # h4 # rest"
    by (cases s; cases "tl s"; cases "tl (tl s)"; cases "tl (tl (tl s))";
        cases "tl (tl (tl (tl s)))"; cases "tl (tl (tl (tl (tl s))))") auto
  then show ?thesis
  proof cases
    case 1
    then have "getu4 s = None"
      by (cases s; cases "tl s"; cases "tl (tl s)"; cases "tl (tl (tl s))";
          cases "tl (tl (tl (tl s)))"; cases "tl (tl (tl (tl (tl s))))") auto
    with 1 show ?thesis by simp
  next
    case 2
    then show ?thesis by simp
  qed
qed

lemma not_hex_quote [simp]: "\<not> is_hex (CHR 0x22)"
  by (simp add: is_hex_def is_digit_def byte_def)

lemma getu4_quote_indep: "getu4 (p @ CHR 0x22 # x) = getu4 (p @ CHR 0x22 # y)"
proof (cases "6 \<le> length p")
  case True
  then show ?thesis by (simp add: getu4_nth nth_append)
next
  case False
  then consider "length p = 0" | "length p = 1" | "length p = 2" | "length p = 3"
    | "length p = 4" | "length p = 5" by linarith
  then have "getu4 (p @ CHR 0x22 # z) = None" for z
    by cases (simp_all add: getu4_nth nth_append)
  then show ?thesis by simp
qed

lemma byte_quote [simp]: "byte (CHR 0x22) = 34"
  by (simp add: byte_def)

lemma utf8_width_q0: "utf8_width (b0 # 34 # ys) = (if b0 < 0x80 then 1 else 0)"
  by (cases ys; cases "tl ys") (simp_all add: is_cont_def)

lemma utf8_width_q1:
  "utf8_width (b0 # a # 34 # ys) =
     (if b0 < 0x80 then 1 else if 0xC2 \<le> b0 \<and> b0 \<le> 0xDF \<and> is_cont a then 2 else 0)"
  by (cases ys) (simp_all add: is_cont_def)

lemma utf8_width_q2:
  "utf8_width (b0 # a # b # 34 # ys) = utf8_width (b0 # a # b # 34 # zs)"
  by (simp add: is_cont_def)

lemma utf8_width_q3:
  "utf8_width (b0 # a # b # c # ys) = utf8_width (b0 # a # b # c # zs)"
  by simp

lemma utf8_width_quote_indep:
  "utf8_width (b0 # map byte (p @ CHR 0x22 # x)) = utf8_width (b0 # map byte (p @ CHR 0x22 # y))"
proof -
  consider "p = []" | a where "p = [a]" | a b where "p = [a, b]"
    | a b c rest where "p = a # b # c # rest"
    by (cases p; cases "tl p"; cases "tl (tl p)") auto
  then show ?thesis
  proof cases
    case 1
    then show ?thesis by (simp add: utf8_width_q0 del: utf8_width.simps)
  next
    case 2
    then show ?thesis by (simp add: utf8_width_q1 del: utf8_width.simps)
  next
    case 3
    then show ?thesis using utf8_width_q2 by (simp del: utf8_width.simps)
  next
    case 4
    then show ?thesis using utf8_width_q3 by (simp del: utf8_width.simps)
  qed
qed

lemma utf8_width_le: "utf8_width bs \<le> length bs"
  by (cases bs) (auto split: list.splits)

lemma scan_string_local:
  assumes "scan_string s = Some (t, r)"
  shows "\<exists>p. s = p @ CHR 0x22 # r \<and> (\<forall>x. scan_string (p @ CHR 0x22 # x) = Some (t, x))"
  using assms
proof (induction "length s" arbitrary: s t r rule: less_induct)
  case less
  obtain c cs where s: "s = c # cs" using less.prems by (cases s) auto
  have IH: "\<exists>p. z = p @ CHR 0x22 # r' \<and> (\<forall>x. scan_string (p @ CHR 0x22 # x) = Some (t', x))"
    if "length z \<le> length cs" "scan_string z = Some (t', r')" for z t' r'
    using less.hyps[of z t' r'] that s by simp
  text \<open>a step that consumes the prefix \<open>pre\<close> and emits \<open>out\<close>\<close>
  have step: ?case
    if rec: "cons_out out (scan_string z) = Some (t, r)" and z: "s = pre @ z" "pre \<noteq> []"
      and same: "\<And>p x. z = p @ CHR 0x22 # r \<Longrightarrow>
                   scan_string (pre @ p @ CHR 0x22 # x) = cons_out out (scan_string (p @ CHR 0x22 # x))"
    for out z pre
  proof -
    from rec obtain t' where t': "scan_string z = Some (t', r)" "t = out @ t'"
      by (auto simp: cons_out_Some)
    have "length z \<le> length cs" using z s by (cases pre) auto
    from IH[OF this t'(1)] obtain p where
      p: "z = p @ CHR 0x22 # r" "\<forall>x. scan_string (p @ CHR 0x22 # x) = Some (t', x)" by blast
    have "scan_string ((pre @ p) @ CHR 0x22 # x) = Some (t, x)" for x
      using same[OF p(1), of x] p(2) t'(2) by (simp add: cons_out_def)
    moreover have "s = (pre @ p) @ CHR 0x22 # r" using z p by simp
    ultimately show ?thesis by blast
  qed
  show ?case
  proof (cases "c = CHR 0x22")
    case True
    with less.prems s have "t = []" "r = cs" by auto
    with True s show ?thesis by (intro exI[of _ "[]"]) simp
  next
    case nq: False
    show ?thesis
    proof (cases "c = CHR 0x5C")
      case bs: True
      then obtain e es where cs: "cs = e # es" using less.prems s by (cases cs) auto
      show ?thesis
      proof (cases "e = CHR ''u''")
        case False
        with less.prems s cs bs obtain b where
          b: "simple_escape e = Some b" "cons_out [b] (scan_string es) = Some (t, r)"
          by (auto split: option.splits)
        show ?thesis
          by (rule step[OF b(2), of "[c, e]"]) (use s cs bs False b in auto)
      next
        case u: True
        from less.prems s cs bs u obtain rr where rr: "getu4 (c # cs) = Some rr"
          by (auto split: option.splits simp del: getu4.simps)
        then have len: "5 \<le> length cs" by (simp add: getu4_nth split: if_splits)
        have g1: "getu4 (c # take 5 cs @ w) = Some rr" for w
          using rr len by (simp add: getu4_nth nth_append nth_Cons' split: if_splits)
        have cs5: "cs = take 5 cs @ drop 5 cs" by simp
        have unf: "scan_string (c # take 5 cs @ w) =
            (if is_surrogate rr then
               (case utf16_DecodeRune rr (getu4 w) of
                  Some dec \<Rightarrow> cons_out (EncodeRune dec) (scan_string (drop 6 w))
                | None \<Rightarrow> cons_out replacement_char (scan_string w))
             else cons_out (EncodeRune rr) (scan_string w))" for w
        proof -
          define q where "q = take 5 cs @ w"
          obtain es' where q: "q = e # es'" using cs len by (cases "take 5 cs") (auto simp: q_def)
          have d: "drop 5 q = w" "drop 11 q = drop 6 w"
            using len by (simp_all add: q_def)
          have g: "getu4 (c # q) = Some rr" using g1[of w] by (simp add: q_def)
          have "scan_string (c # q) =
            (if is_surrogate rr then
               (case utf16_DecodeRune rr (getu4 w) of
                  Some dec \<Rightarrow> cons_out (EncodeRune dec) (scan_string (drop 6 w))
                | None \<Rightarrow> cons_out replacement_char (scan_string w))
             else cons_out (EncodeRune rr) (scan_string w))"
            unfolding scan_string.simps(2)[of c q] g d
            using nq bs u by (simp add: q)
          then show ?thesis by (simp add: q_def)
        qed
        from less.prems have eq: "scan_string (c # take 5 cs @ drop 5 cs) = Some (t, r)"
          using s by simp
        note eq' = eq[unfolded unf]
        show ?thesis
        proof (cases "is_surrogate rr \<and> utf16_DecodeRune rr (getu4 (drop 5 cs)) \<noteq> None")
          case True
          then obtain dec where dec: "utf16_DecodeRune rr (getu4 (drop 5 cs)) = Some dec" by auto
          then obtain lo where lo: "getu4 (drop 5 cs) = Some lo"
            by (auto simp: utf16_DecodeRune_def split: option.splits)
          then have len2: "6 \<le> length (drop 5 cs)" by (simp add: getu4_nth split: if_splits)
          have g2: "getu4 (take 6 (drop 5 cs) @ w) = Some lo" for w
            using lo len2 by (simp add: getu4_nth nth_append split: if_splits)
          from eq' True dec have rec: "cons_out (EncodeRune dec) (scan_string (drop 11 cs)) = Some (t, r)"
            by simp
          show ?thesis
          proof (rule step[OF rec, of "c # take 11 cs"])
            show "s = (c # take 11 cs) @ drop 11 cs" using s by simp
            show "c # take 11 cs \<noteq> []" by simp
            fix p x assume "drop 11 cs = p @ CHR 0x22 # r"
            have t11: "take 11 cs = take 5 cs @ take 6 (drop 5 cs)"
              using len len2 by (simp add: take_add[of 5 6 cs, simplified])
            have len6: "length (take 6 (drop 5 cs)) = 6" using len2 by simp
            show "scan_string ((c # take 11 cs) @ p @ CHR 0x22 # x)
                    = cons_out (EncodeRune dec) (scan_string (p @ CHR 0x22 # x))"
              using unf[of "take 6 (drop 5 cs) @ p @ CHR 0x22 # x"] True dec lo g2 len6
              by (simp add: t11)
          qed
        next
          case False
          define out where "out = (if is_surrogate rr then replacement_char else EncodeRune rr)"
          from eq' False have rec: "cons_out out (scan_string (drop 5 cs)) = Some (t, r)"
            by (auto simp: out_def split: option.splits if_splits)
          show ?thesis
          proof (rule step[OF rec, of "c # take 5 cs"])
            show "s = (c # take 5 cs) @ drop 5 cs" using s by simp
            show "c # take 5 cs \<noteq> []" by simp
            fix p x assume d5: "drop 5 cs = p @ CHR 0x22 # r"
            have "getu4 (p @ CHR 0x22 # x) = getu4 (drop 5 cs)"
              unfolding d5 by (rule getu4_quote_indep)
            then show "scan_string ((c # take 5 cs) @ p @ CHR 0x22 # x)
                    = cons_out out (scan_string (p @ CHR 0x22 # x))"
              using unf[of "p @ CHR 0x22 # x"] False
              by (auto simp: out_def split: option.splits)
          qed
        qed
      qed
    next
      case nb: False
      from less.prems s nq nb have ctl: "\<not> byte c < 0x20" by (auto split: if_splits)
      show ?thesis
      proof (cases "byte c < 0x80")
        case True
        with less.prems s nq nb ctl have rec: "cons_out [c] (scan_string cs) = Some (t, r)"
          by simp
        show ?thesis
          by (rule step[OF rec, of "[c]"]) (use s nq nb ctl True in auto)
      next
        case False
        define n where "n = utf8_width (map byte (c # cs))"
        show ?thesis
        proof (cases "n = 0")
          case True
          with less.prems s nq nb ctl False
          have rec: "cons_out replacement_char (scan_string cs) = Some (t, r)"
            by (simp add: n_def Let_def del: utf8_width.simps)
          show ?thesis
          proof (rule step[OF rec, of "[c]"])
            show "s = [c] @ cs" using s by simp
            show "[c] \<noteq> []" by simp
            fix p x assume d: "cs = p @ CHR 0x22 # r"
            have "utf8_width (byte c # map byte (p @ CHR 0x22 # x)) = 0"
              using True utf8_width_quote_indep[of "byte c" p x r]
              by (simp add: n_def d del: utf8_width.simps)
            then show "scan_string ([c] @ p @ CHR 0x22 # x)
                    = cons_out replacement_char (scan_string (p @ CHR 0x22 # x))"
              using nq nb ctl False by (simp add: Let_def del: utf8_width.simps)
          qed
        next
          case n0: False
          with less.prems s nq nb ctl False
          have rec: "cons_out (c # take (n - 1) cs) (scan_string (drop (n - 1) cs)) = Some (t, r)"
            by (simp add: n_def Let_def del: utf8_width.simps)
          have nle: "n - 1 \<le> length cs"
            using utf8_width_le[of "map byte (c # cs)"] by (simp add: n_def)
          show ?thesis
          proof (rule step[OF rec, of "c # take (n - 1) cs"])
            show "s = (c # take (n - 1) cs) @ drop (n - 1) cs" using s by simp
            show "c # take (n - 1) cs \<noteq> []" by simp
            fix p x assume d: "drop (n - 1) cs = p @ CHR 0x22 # r"
            have cs: "cs = (take (n - 1) cs @ p) @ CHR 0x22 # r"
              using d append_take_drop_id[of "n - 1" cs] by simp
            have "utf8_width (byte c # map byte cs)
                    = utf8_width (byte c # map byte ((take (n - 1) cs @ p) @ CHR 0x22 # r))"
              by (subst cs) (rule refl)
            then have "utf8_width (byte c # map byte ((take (n - 1) cs @ p) @ CHR 0x22 # x)) = n"
              using utf8_width_quote_indep[of "byte c" "take (n - 1) cs @ p" x r]
              by (simp add: n_def del: utf8_width.simps)
            then have w: "utf8_width (map byte (c # take (n - 1) cs @ p @ CHR 0x22 # x)) = n"
              by (simp del: utf8_width.simps)
            have tk: "take (n - 1) (take (n - 1) cs @ p @ CHR 0x22 # x) = take (n - 1) cs"
              "drop (n - 1) (take (n - 1) cs @ p @ CHR 0x22 # x) = p @ CHR 0x22 # x"
              using nle by simp_all
            show "scan_string ((c # take (n - 1) cs) @ p @ CHR 0x22 # x)
                    = cons_out (c # take (n - 1) cs) (scan_string (p @ CHR 0x22 # x))"
              unfolding append_Cons scan_string.simps(2)[of c "take (n - 1) cs @ p @ CHR 0x22 # x"]
                w Let_def tk
              using nq nb ctl False n0 by simp
          qed
        qed
      qed
    qed
  qed
qed

lemma scan_literal_local:
  assumes "scan_literal lit s = Some r"
  shows "s = lit @ r \<and> (\<forall>x. scan_literal lit (lit @ x) = Some x)"
proof -
  from assms have t: "take (length lit) s = lit" and r: "r = drop (length lit) s"
    by (auto simp: scan_literal_def split: if_splits)
  have "s = take (length lit) s @ drop (length lit) s" by simp
  with t r have "s = lit @ r" by simp
  then show ?thesis by (simp add: scan_literal_def)
qed

lemma skip_ws_split: "s = takeWhile is_ws s @ skip_ws s"
  by (simp add: skip_ws_def)

lemma skip_ws_hd: "skip_ws s = c # cs \<Longrightarrow> \<not> is_ws c"
  unfolding skip_ws_def by (metis hd_dropWhile list.distinct(1) list.sel(1))

lemma skip_ws_ws_prefix:
  assumes "\<not> is_ws c"
  shows "skip_ws (takeWhile is_ws s @ c # x) = c # x"
proof -
  have "dropWhile is_ws (takeWhile is_ws s @ c # x) = dropWhile is_ws (c # x)"
    by (rule dropWhile_append2) (auto dest: set_takeWhileD)
  with assms show ?thesis by (simp add: skip_ws_def)
qed

lemma skip_ws_nonws: "\<not> is_ws c \<Longrightarrow> skip_ws (c # x) = c # x"
  by (simp add: skip_ws_def)

lemma not_ws_chars [simp]:
  "\<not> is_ws (CHR ''{'')" "\<not> is_ws (CHR ''['')" "\<not> is_ws (CHR 0x22)" "\<not> is_ws (CHR ''t'')"
  "\<not> is_ws (CHR ''f'')" "\<not> is_ws (CHR ''n'')" "\<not> is_ws (CHR ''-'')"
  "\<not> is_ws (CHR '']'')" "\<not> is_ws (CHR ''}'')" "\<not> is_ws (CHR '','')" "\<not> is_ws (CHR '':'')"
  by (simp_all add: is_ws_def)

lemma is_ws_not_digit: "is_ws c \<Longrightarrow> \<not> is_digit c"
  by (auto simp: is_ws_def is_digit_def byte_def)

lemma nonext_ws_prefix:
  assumes "\<not> is_digit c" "c \<noteq> CHR ''.''" "c \<noteq> CHR ''e''" "c \<noteq> CHR ''E''"
  shows "nonext (takeWhile is_ws s @ c # x)"
proof (cases "takeWhile is_ws s")
  case Nil
  with assms show ?thesis by (simp add: nonext_def)
next
  case (Cons w ws)
  then have "w \<in> set (takeWhile is_ws s)" by simp
  then have "is_ws w" by (rule set_takeWhileD[THEN conjunct2])
  then have "\<not> is_digit w \<and> w \<noteq> CHR ''.'' \<and> w \<noteq> CHR ''e'' \<and> w \<noteq> CHR ''E''"
    by (auto simp: is_ws_def is_digit_def byte_def)
  with Cons show ?thesis by (simp add: nonext_def)
qed

lemma nonext_close [simp]:
  "nonext (takeWhile is_ws s @ CHR '']'' # x)"
  "nonext (takeWhile is_ws s @ CHR ''}'' # x)"
  "nonext (takeWhile is_ws s @ CHR '','' # x)"
  by (rule nonext_ws_prefix; simp add: is_digit_def byte_def)+

lemma scan_number_first:
  assumes "scan_number (c # cs) = Some x"
  shows "c = CHR ''-'' \<or> is_digit c"
proof (cases "c = CHR ''-''")
  case False
  with assms have "scan_int_part (c # cs) \<noteq> None"
    by (simp add: scan_number_def split: option.splits)
  then show ?thesis
    by (simp add: scan_int_part_def is_digit_def byte_def split: if_splits)
qed simp

lemma scan_number_hd:
  assumes "scan_number s = Some (lit, r)"
  shows "\<not> is_ws (hd lit)"
proof -
  from scan_number_local[OF assms] have s: "s = lit @ r" "lit \<noteq> []" by auto
  then obtain c cs where lit: "lit = c # cs" by (cases lit) auto
  from assms s lit have "c = CHR ''-'' \<or> is_digit c"
    using scan_number_first[of c "cs @ r"] by simp
  then show ?thesis using lit is_ws_not_digit by auto
qed

text \<open>
  The value that the parser reads from \<open>s\<close> is read from the consumed bytes alone,
  whatever follows them, as long as what follows does not continue a number.
\<close>

lemma parse_local:
  "parse_value d s = Some (v, r) \<Longrightarrow>
     \<exists>raw. s = raw @ r \<and> raw \<noteq> [] \<and> \<not> is_ws (hd raw)
        \<and> (\<forall>x. nonext x \<longrightarrow> parse_value d (raw @ x) = Some (v, x))"
  "parse_elems d s = Some (vs, r) \<Longrightarrow>
     \<exists>raw. s = raw @ r \<and> raw \<noteq> [] \<and> (\<forall>x. parse_elems d (raw @ x) = Some (vs, x))"
  "parse_members d s = Some (ms, r) \<Longrightarrow>
     \<exists>raw. s = raw @ r \<and> raw \<noteq> [] \<and> (\<forall>x. parse_members d (raw @ x) = Some (ms, x))
        \<and> (\<forall>(k, b, w) \<in> set ms. b \<noteq> [] \<and> \<not> is_ws (hd b) \<and> parse_value d b = Some (w, []))"
proof (induction d s and d s and d s arbitrary: v r and vs r and ms r
       rule: parse_value_parse_elems_parse_members.induct)
  case (1 d s)
  obtain c cs where s: "s = c # cs"
    using "1.prems" by (cases s) (auto simp: parse_value.simps)
  note eq0 = "1.prems"[unfolded parse_value.simps[of d s]]
  note eq = eq0[unfolded s list.case]
  show ?case
  proof (cases "c = CHR ''{''")
    case True
    with eq obtain c' cs' where sk: "skip_ws cs = c' # cs'" and d: "d \<noteq> 0"
      by (cases "skip_ws cs") (auto split: if_splits)
    have cs: "cs = takeWhile is_ws cs @ c' # cs'"
      using skip_ws_split[of cs] sk by simp
    note nws = skip_ws_hd[OF sk]
    show ?thesis
    proof (cases "c' = CHR ''}''")
      case c': True
      with eq True sk d have v: "v = JObject []" "r = cs'" by auto
      have "parse_value d ((c # takeWhile is_ws cs @ [c']) @ x) = Some (v, x)" for x
        using True c' d v by (simp add: parse_value.simps[of d "_ # _"] skip_ws_ws_prefix)
      moreover have "s = (c # takeWhile is_ws cs @ [c']) @ r"
        using s cs v by simp
      ultimately show ?thesis using True
        by (intro exI[of _ "c # takeWhile is_ws cs @ [c']"]) simp
    next
      case c': False
      with eq True sk d obtain ms where
        pm: "parse_members (d - 1) (c' # cs') = Some (ms, r)" and v: "v = JObject ms"
        by (auto split: option.splits)
      from "1.IH"(1)[OF s True d sk c' pm] obtain raw where
        raw: "c' # cs' = raw @ r" "raw \<noteq> []"
          "\<forall>x. parse_members (d - 1) (raw @ x) = Some (ms, x)" by blast
      then obtain raw' where raw': "raw = c' # raw'" by (cases raw) auto
      have "parse_value d ((c # takeWhile is_ws cs @ raw) @ x) = Some (v, x)" for x
        using True c' d v raw(3)[rule_format, of x] nws
        by (simp add: parse_value.simps[of d "_ # _"] raw' skip_ws_ws_prefix)
      moreover have "s = (c # takeWhile is_ws cs @ raw) @ r"
        using s cs raw(1) by simp
      ultimately show ?thesis using True
        by (intro exI[of _ "c # takeWhile is_ws cs @ raw"]) simp
    qed
  next
    case nobj: False
    show ?thesis
    proof (cases "c = CHR ''[''")
      case True
      with eq nobj obtain c' cs' where sk: "skip_ws cs = c' # cs'" and d: "d \<noteq> 0"
        by (cases "skip_ws cs") (auto split: if_splits)
      have cs: "cs = takeWhile is_ws cs @ c' # cs'"
        using skip_ws_split[of cs] sk by simp
      note nws = skip_ws_hd[OF sk]
      show ?thesis
      proof (cases "c' = CHR '']''")
        case c': True
        with eq True sk d have v: "v = JArray []" "r = cs'" by auto
        have "parse_value d ((c # takeWhile is_ws cs @ [c']) @ x) = Some (v, x)" for x
          using True c' d v by (simp add: parse_value.simps[of d "_ # _"] skip_ws_ws_prefix)
        moreover have "s = (c # takeWhile is_ws cs @ [c']) @ r"
          using s cs v by simp
        ultimately show ?thesis using True
          by (intro exI[of _ "c # takeWhile is_ws cs @ [c']"]) simp
      next
        case c': False
        with eq True sk d obtain vs where
          pe: "parse_elems (d - 1) (c' # cs') = Some (vs, r)" and v: "v = JArray vs"
          by (auto split: option.splits)
        from "1.IH"(2)[OF s nobj True d sk c' pe] obtain raw where
          raw: "c' # cs' = raw @ r" "raw \<noteq> []"
            "\<forall>x. parse_elems (d - 1) (raw @ x) = Some (vs, x)" by blast
        then obtain raw' where raw': "raw = c' # raw'" by (cases raw) auto
        have "parse_value d ((c # takeWhile is_ws cs @ raw) @ x) = Some (v, x)" for x
          using True c' d v raw(3)[rule_format, of x] nws
          by (simp add: parse_value.simps[of d "_ # _"] raw' skip_ws_ws_prefix)
        moreover have "s = (c # takeWhile is_ws cs @ raw) @ r"
          using s cs raw(1) by simp
        ultimately show ?thesis using True
          by (intro exI[of _ "c # takeWhile is_ws cs @ raw"]) simp
      qed
    next
      case narr: False
      show ?thesis
      proof (cases "c = CHR 0x22")
        case True
        with eq nobj narr obtain t where ss: "scan_string cs = Some (t, r)" and v: "v = JString t"
          by (auto split: option.splits)
        from scan_string_local[OF ss] obtain p where
          p: "cs = p @ CHR 0x22 # r" "\<forall>x. scan_string (p @ CHR 0x22 # x) = Some (t, x)" by blast
        have "parse_value d ((c # p @ [CHR 0x22]) @ x) = Some (v, x)" for x
          using True v p(2)[rule_format, of x]
          by (simp add: parse_value.simps[of d "_ # _"])
        moreover have "s = (c # p @ [CHR 0x22]) @ r" using s p(1) by simp
        ultimately show ?thesis using True
          by (intro exI[of _ "c # p @ [CHR 0x22]"]) simp
      next
        case nstr: False
        have lit: ?thesis
          if c: "c = l" and sl: "scan_literal (l # ls) s = Some r"
            and unf: "\<And>z. parse_value d (l # z) =
                       (case scan_literal (l # ls) (l # z) of None \<Rightarrow> None | Some r' \<Rightarrow> Some (v, r'))"
            and nw: "\<not> is_ws l"
          for l ls
        proof -
          from scan_literal_local[OF sl] have
            a: "s = (l # ls) @ r" "\<forall>x. scan_literal (l # ls) ((l # ls) @ x) = Some x" by auto
          have "parse_value d ((l # ls) @ x) = Some (v, x)" for x
            using unf[of "ls @ x"] a(2)[rule_format, of x] by simp
          with a(1) nw show ?thesis
            by (intro exI[of _ "l # ls"]) simp
        qed
        show ?thesis
        proof (cases "c = CHR ''t''")
          case True
          with eq nobj narr nstr s have sl: "scan_literal ''true'' s = Some r" and v: "v = JBool True"
            by (auto split: option.splits)
          show ?thesis
            by (rule lit[OF True sl]) (simp_all add: parse_value.simps[of d "_ # _"] v cong: option.case_cong)
        next
          case nt: False
          show ?thesis
          proof (cases "c = CHR ''f''")
            case True
            with eq nobj narr nstr nt s have sl: "scan_literal ''false'' s = Some r"
              and v: "v = JBool False"
              by (auto split: option.splits)
            show ?thesis
              by (rule lit[OF True sl]) (simp_all add: parse_value.simps[of d "_ # _"] v cong: option.case_cong)
          next
            case nf: False
            show ?thesis
            proof (cases "c = CHR ''n''")
              case True
              with eq nobj narr nstr nt nf s have sl: "scan_literal ''null'' s = Some r"
                and v: "v = JNull"
                by (auto split: option.splits)
              show ?thesis
                by (rule lit[OF True sl]) (simp_all add: parse_value.simps[of d "_ # _"] v cong: option.case_cong)
            next
              case nn: False
              with eq nobj narr nstr nt nf s obtain lit where
                sn: "scan_number s = Some (lit, r)" and v: "v = JNumber lit"
                by (auto split: option.splits)
              from scan_number_local[OF sn] have
                a: "s = lit @ r" "lit \<noteq> []"
                  "\<forall>x. nonext x \<longrightarrow> scan_number (lit @ x) = Some (lit, x)" by auto
              from a s obtain ls where lit: "lit = c # ls" by (cases lit) auto
              have "parse_value d (lit @ x) = Some (v, x)" if "nonext x" for x
                using a(3)[rule_format, OF that] nobj narr nstr nt nf nn v
                by (simp add: parse_value.simps[of d "_ # _"] lit)
              then show ?thesis using a scan_number_hd[OF sn]
                by (intro exI[of _ lit]) simp
            qed
          qed
        qed
      qed
    qed
  qed
next
  case (2 d s)
  note eq = "2.prems"[unfolded parse_elems.simps[of d s]]
  from eq obtain v r1 where pv: "parse_value d s = Some (v, r1)"
    by (auto split: option.splits)
  from "2.IH"(1)[OF pv] obtain raw1 where
    raw1: "s = raw1 @ r1" "raw1 \<noteq> []"
      "\<forall>x. nonext x \<longrightarrow> parse_value d (raw1 @ x) = Some (v, x)" by blast
  from eq pv obtain c cs where sk: "skip_ws r1 = c # cs"
    by (cases "skip_ws r1") auto
  have r1: "r1 = takeWhile is_ws r1 @ c # cs"
    using skip_ws_split[of r1] sk by simp
  note nws = skip_ws_hd[OF sk]
  show ?case
  proof (cases "c = CHR '']''")
    case True
    with eq pv sk have v: "vs = [v]" "r = cs" by auto
    have "parse_elems d ((raw1 @ takeWhile is_ws r1 @ [c]) @ x) = Some (vs, x)" for x
    proof -
      have "parse_value d (raw1 @ takeWhile is_ws r1 @ c # x) = Some (v, takeWhile is_ws r1 @ c # x)"
        using raw1(3) True by simp
      then show ?thesis
        using True v by (simp add: parse_elems.simps[of d "_ @ _"] skip_ws_ws_prefix)
    qed
    moreover have "s = (raw1 @ takeWhile is_ws r1 @ [c]) @ r"
      using raw1(1) r1 v by simp
    ultimately show ?thesis using raw1(2)
      by (intro exI[of _ "raw1 @ takeWhile is_ws r1 @ [c]"]) simp
  next
    case False
    with eq pv sk have comma: "c = CHR '',''" by (auto split: if_splits)
    with eq pv sk False obtain vs' where
      pe: "parse_elems d (skip_ws cs) = Some (vs', r)" and v: "vs = v # vs'"
      by (auto split: option.splits)
    from "2.IH"(2)[OF pv refl sk False comma pe] obtain raw2 where
      raw2: "skip_ws cs = raw2 @ r" "raw2 \<noteq> []"
        "\<forall>x. parse_elems d (raw2 @ x) = Some (vs', x)" by blast
    then obtain c2 raw2' where raw2': "raw2 = c2 # raw2'" by (cases raw2) auto
    have nws2: "\<not> is_ws c2" using raw2(1) raw2' skip_ws_hd[of cs c2] by simp
    have cs: "cs = takeWhile is_ws cs @ raw2 @ r"
      using skip_ws_split[of cs] raw2(1) by simp
    define raw where "raw = raw1 @ takeWhile is_ws r1 @ [c] @ takeWhile is_ws cs @ raw2"
    have "parse_elems d (raw @ x) = Some (vs, x)" for x
    proof -
      have "parse_value d (raw1 @ takeWhile is_ws r1 @ c # takeWhile is_ws cs @ raw2 @ x)
              = Some (v, takeWhile is_ws r1 @ c # takeWhile is_ws cs @ raw2 @ x)"
        using raw1(3) comma by simp
      moreover have "skip_ws (takeWhile is_ws cs @ raw2 @ x) = raw2 @ x"
        using nws2 by (simp add: raw2' skip_ws_ws_prefix)
      ultimately show ?thesis
        using comma v raw2(3)[rule_format, of x]
        by (simp add: parse_elems.simps[of d "_ @ _"] skip_ws_ws_prefix raw_def)
    qed
    moreover have "s = raw @ r"
      using raw1(1) r1 cs by (simp add: raw_def)
    ultimately show ?thesis using raw1(2)
      by (intro exI[of _ raw]) (simp add: raw_def)
  qed
next
  case (3 d s)
  note eq = "3.prems"[unfolded parse_members.simps[of d s]]
  from eq obtain q s0 where s: "s = q # s0" by (cases s) auto
  from eq s have q: "\<not> q \<noteq> CHR 0x22" by (auto split: if_splits)
  from eq s q obtain k r1 where ss: "scan_string s0 = Some (k, r1)"
    by (auto split: option.splits)
  from eq s q ss obtain c1 r2 where sk1: "skip_ws r1 = c1 # r2"
    by (cases "skip_ws r1") auto
  from eq s q ss sk1 have c1: "\<not> c1 \<noteq> CHR '':''" by (auto split: if_splits)
  from eq s q ss sk1 c1 obtain v r4 where pv: "parse_value d (skip_ws r2) = Some (v, r4)"
    by (auto split: option.splits)
  from scan_string_local[OF ss] obtain p where
    p: "s0 = p @ CHR 0x22 # r1" "\<forall>x. scan_string (p @ CHR 0x22 # x) = Some (k, x)" by blast
  have r1: "r1 = takeWhile is_ws r1 @ c1 # r2"
    using skip_ws_split[of r1] sk1 by simp
  from "3.IH"(1)[OF s q ss refl sk1 c1 pv] obtain rawv where
    rawv: "skip_ws r2 = rawv @ r4" "rawv \<noteq> []" "\<not> is_ws (hd rawv)"
      "\<forall>x. nonext x \<longrightarrow> parse_value d (rawv @ x) = Some (v, x)" by blast
  have r2: "r2 = takeWhile is_ws r2 @ rawv @ r4"
    using skip_ws_split[of r2] rawv(1) by simp
  obtain cv rawv' where rawv': "rawv = cv # rawv'" using rawv(2) by (cases rawv) auto
  have nwsv: "\<not> is_ws cv" using rawv(3) rawv' by simp
  have tk: "take (length (skip_ws r2) - length r4) (skip_ws r2) = rawv"
    by (simp add: rawv(1))
  from eq s q ss sk1 c1 pv obtain c cs where sk4: "skip_ws r4 = c # cs"
    by (cases "skip_ws r4") (auto simp: Let_def)
  have r4: "r4 = takeWhile is_ws r4 @ c # cs"
    using skip_ws_split[of r4] sk4 by simp
  define pre where "pre = q # p @ [CHR 0x22] @ takeWhile is_ws r1 @ [c1] @ takeWhile is_ws r2 @ rawv
                           @ takeWhile is_ws r4"
  have spre: "s = pre @ c # cs"
    using s p(1) r1 r2 r4 by (simp add: pre_def)
  have self: "parse_value d rawv = Some (v, [])"
    using rawv(4)[rule_format, of "[]"] by (simp add: nonext_def)
  text \<open>how a member is read when it is followed by \<open>c # y\<close>\<close>
  have unf: "parse_members d (pre @ c # y) =
      (if c = CHR ''}'' then Some ([(k, rawv, v)], y)
       else if c = CHR '','' then
         (case parse_members d (skip_ws y) of
            None \<Rightarrow> None
          | Some (ms', r') \<Rightarrow> Some ((k, rawv, v) # ms', r'))
       else None)"
    if cc: "c = CHR ''}'' \<or> c = CHR '',''" for y
  proof -
    define t4 where "t4 = takeWhile is_ws r4 @ c # y"
    define t2 where "t2 = takeWhile is_ws r2 @ rawv @ t4"
    define t1 where "t1 = takeWhile is_ws r1 @ c1 # t2"
    have ne: "nonext t4"
      using cc by (auto simp: t4_def)
    have whole: "pre @ c # y = q # p @ CHR 0x22 # t1"
      by (simp add: pre_def t1_def t2_def t4_def)
    have a: "scan_string (p @ CHR 0x22 # t1) = Some (k, t1)"
      using p(2) by simp
    have b: "skip_ws t1 = c1 # t2"
      using c1 by (simp add: t1_def skip_ws_ws_prefix)
    have c': "skip_ws t2 = rawv @ t4"
      using nwsv by (simp add: t2_def rawv' skip_ws_ws_prefix)
    have d': "parse_value d (rawv @ t4) = Some (v, t4)"
      using rawv(4) ne by simp
    have e: "skip_ws t4 = c # y"
      using cc by (auto simp: t4_def skip_ws_ws_prefix)
    show ?thesis
      unfolding whole using q c1
      by (subst parse_members.simps) (simp add: a b c' d' e Let_def cong: option.case_cong)
  qed
  show ?case
  proof (cases "c = CHR ''}''")
    case True
    with eq s q ss sk1 c1 pv sk4 have ms: "ms = [(k, rawv, v)]" "r = cs"
      by (simp_all add: Let_def tk)
    have "parse_members d ((pre @ [c]) @ x) = Some (ms, x)" for x
      using unf[of x] True ms by simp
    moreover have "s = (pre @ [c]) @ r" using spre ms by simp
    ultimately show ?thesis using ms self rawv(2,3)
      by (intro exI[of _ "pre @ [c]"]) simp
  next
    case False
    with eq s q ss sk1 c1 pv sk4 have comma: "c = CHR '',''"
      by (auto simp: Let_def split: if_splits)
    with eq s q ss sk1 c1 pv sk4 False obtain ms' where
      pm: "parse_members d (skip_ws cs) = Some (ms', r)" and ms: "ms = (k, rawv, v) # ms'"
      by (auto simp: Let_def tk split: option.splits)
    from "3.IH"(2)[OF s q ss refl sk1 c1 pv refl refl sk4 False comma pm] obtain raw2 where
      raw2: "skip_ws cs = raw2 @ r" "raw2 \<noteq> []"
        "\<forall>x. parse_members d (raw2 @ x) = Some (ms', x)"
        "\<forall>(k, b, w) \<in> set ms'. b \<noteq> [] \<and> \<not> is_ws (hd b) \<and> parse_value d b = Some (w, [])"
      by blast
    then obtain c2 raw2' where raw2': "raw2 = c2 # raw2'" by (cases raw2) auto
    have nws2: "\<not> is_ws c2" using raw2(1) raw2' skip_ws_hd[of cs c2] by simp
    have cs: "cs = takeWhile is_ws cs @ raw2 @ r"
      using skip_ws_split[of cs] raw2(1) by simp
    have "parse_members d ((pre @ [c] @ takeWhile is_ws cs @ raw2) @ x) = Some (ms, x)" for x
    proof -
      have "skip_ws (takeWhile is_ws cs @ raw2 @ x) = raw2 @ x"
        using nws2 by (simp add: raw2' skip_ws_ws_prefix)
      then show ?thesis
        using unf[of "takeWhile is_ws cs @ raw2 @ x"] comma ms raw2(3)[rule_format, of x]
        by simp
    qed
    moreover have "s = (pre @ [c] @ takeWhile is_ws cs @ raw2) @ r"
      using spre cs by simp
    ultimately show ?thesis using ms self rawv(2,3) raw2(4)
      by (intro exI[of _ "pre @ [c] @ takeWhile is_ws cs @ raw2"]) simp
  qed
qed

subsection \<open>The nesting limit and the bytes of a member\<close>

lemma parse_depth_mono:
  "parse_value d s = Some a \<Longrightarrow> d \<le> d' \<Longrightarrow> parse_value d' s = Some a"
  "parse_elems d s = Some b \<Longrightarrow> d \<le> d' \<Longrightarrow> parse_elems d' s = Some b"
  "parse_members d s = Some m \<Longrightarrow> d \<le> d' \<Longrightarrow> parse_members d' s = Some m"
proof (induction d s and d s and d s arbitrary: a d' and b d' and m d'
       rule: parse_value_parse_elems_parse_members.induct)
  case (1 d s)
  obtain c cs where s: "s = c # cs"
    using "1.prems"(1) by (cases s) (auto simp: parse_value.simps)
  note eq0 = "1.prems"(1)[unfolded parse_value.simps[of d s]]
  note eq = eq0[unfolded s list.case]
  have le: "d - 1 \<le> d' - 1" using "1.prems"(2) by simp
  show ?case
  proof (cases "c = CHR ''{''")
    case True
    with eq obtain c' cs' where sk: "skip_ws cs = c' # cs'" and d: "d \<noteq> 0"
      by (cases "skip_ws cs") (auto split: if_splits)
    have d': "d' \<noteq> 0" using d "1.prems"(2) by simp
    show ?thesis
    proof (cases "c' = CHR ''}''")
      case c': True
      with eq True sk d have "a = (JObject [], cs')" by auto
      then show ?thesis using True c' sk d' by (simp add: parse_value.simps[of d' "_ # _"] s)
    next
      case c': False
      with eq True sk d obtain ms r where
        pm: "parse_members (d - 1) (c' # cs') = Some (ms, r)" and a: "a = (JObject ms, r)"
        by (auto split: option.splits)
      have "parse_members (d' - 1) (c' # cs') = Some (ms, r)"
        by (rule "1.IH"(1)[OF s True d sk c' pm le])
      then show ?thesis
        using True c' sk d' a by (simp add: parse_value.simps[of d' "_ # _"] s)
    qed
  next
    case nobj: False
    show ?thesis
    proof (cases "c = CHR ''[''")
      case True
      with eq nobj obtain c' cs' where sk: "skip_ws cs = c' # cs'" and d: "d \<noteq> 0"
        by (cases "skip_ws cs") (auto split: if_splits)
      have d': "d' \<noteq> 0" using d "1.prems"(2) by simp
      show ?thesis
      proof (cases "c' = CHR '']''")
        case c': True
        with eq True sk d have "a = (JArray [], cs')" by auto
        then show ?thesis
          using True c' sk d' by (simp add: parse_value.simps[of d' "_ # _"] s)
      next
        case c': False
        with eq True sk d obtain vs r where
          pe: "parse_elems (d - 1) (c' # cs') = Some (vs, r)" and a: "a = (JArray vs, r)"
          by (auto split: option.splits)
        have "parse_elems (d' - 1) (c' # cs') = Some (vs, r)"
          by (rule "1.IH"(2)[OF s nobj True d sk c' pe le])
        then show ?thesis
          using True c' sk d' a by (simp add: parse_value.simps[of d' "_ # _"] s)
      qed
    next
      case narr: False
      have "parse_value d' (c # cs) = parse_value d (c # cs)"
        using nobj narr by (simp add: parse_value.simps[of _ "_ # _"])
      with "1.prems"(1) s show ?thesis by simp
    qed
  qed
next
  case (2 d s)
  note eq = "2.prems"(1)[unfolded parse_elems.simps[of d s]]
  from eq obtain v r1 where pv: "parse_value d s = Some (v, r1)"
    by (auto split: option.splits)
  have pv': "parse_value d' s = Some (v, r1)"
    by (rule "2.IH"(1)[OF pv "2.prems"(2)])
  from eq pv obtain c cs where sk: "skip_ws r1 = c # cs"
    by (cases "skip_ws r1") auto
  show ?case
  proof (cases "c = CHR '']''")
    case True
    with eq pv sk have "b = ([v], cs)" by auto
    then show ?thesis using True pv' sk by (simp add: parse_elems.simps[of d' s])
  next
    case False
    with eq pv sk have comma: "c = CHR '',''" by (auto split: if_splits)
    with eq pv sk False obtain vs' r where
      pe: "parse_elems d (skip_ws cs) = Some (vs', r)" and b: "b = (v # vs', r)"
      by (auto split: option.splits)
    have "parse_elems d' (skip_ws cs) = Some (vs', r)"
      by (rule "2.IH"(2)[OF pv refl sk False comma pe "2.prems"(2)])
    then show ?thesis using False comma pv' sk b by (simp add: parse_elems.simps[of d' s])
  qed
next
  case (3 d s)
  note eq = "3.prems"(1)[unfolded parse_members.simps[of d s]]
  from eq obtain q s0 where s: "s = q # s0" by (cases s) auto
  from eq s have q: "\<not> q \<noteq> CHR 0x22" by (auto split: if_splits)
  from eq s q obtain k r1 where ss: "scan_string s0 = Some (k, r1)"
    by (auto split: option.splits)
  from eq s q ss obtain c1 r2 where sk1: "skip_ws r1 = c1 # r2"
    by (cases "skip_ws r1") auto
  from eq s q ss sk1 have c1: "\<not> c1 \<noteq> CHR '':''" by (auto split: if_splits)
  from eq s q ss sk1 c1 obtain v r4 where pv: "parse_value d (skip_ws r2) = Some (v, r4)"
    by (auto split: option.splits)
  have pv': "parse_value d' (skip_ws r2) = Some (v, r4)"
    by (rule "3.IH"(1)[OF s q ss refl sk1 c1 pv "3.prems"(2)])
  from eq s q ss sk1 c1 pv obtain c cs where sk4: "skip_ws r4 = c # cs"
    by (cases "skip_ws r4") (auto simp: Let_def)
  define raw where "raw = take (length (skip_ws r2) - length r4) (skip_ws r2)"
  show ?case
  proof (cases "c = CHR ''}''")
    case True
    with eq s q ss sk1 c1 pv sk4 have "m = ([(k, raw, v)], cs)"
      by (simp add: Let_def raw_def)
    then show ?thesis
      using True s q ss sk1 c1 pv' sk4
      by (simp add: parse_members.simps[of d' "_ # _"] Let_def raw_def)
  next
    case False
    with eq s q ss sk1 c1 pv sk4 have comma: "c = CHR '',''"
      by (auto simp: Let_def split: if_splits)
    with eq s q ss sk1 c1 pv sk4 False obtain ms' r where
      pm: "parse_members d (skip_ws cs) = Some (ms', r)" and m: "m = ((k, raw, v) # ms', r)"
      by (auto simp: Let_def raw_def split: option.splits)
    have "parse_members d' (skip_ws cs) = Some (ms', r)"
      by (rule "3.IH"(2)[OF s q ss refl sk1 c1 pv refl refl sk4 False comma pm "3.prems"(2)])
    then show ?thesis
      using False comma s q ss sk1 c1 pv' sk4 m
      by (simp add: parse_members.simps[of d' "_ # _"] Let_def raw_def)
  qed
qed

lemma member_bytes_valid:
  assumes "parse_members d s = Some (ms, r)" and "d \<le> maxNestingDepth"
    and "(k, b, w) \<in> set ms"
  shows "json_Valid b"
proof -
  from parse_local(3)[OF assms(1)] assms(3)
  have b: "b \<noteq> []" "\<not> is_ws (hd b)" "parse_value d b = Some (w, [])" by auto
  from b(1,2) have "skip_ws b = b" by (cases b) (simp_all add: skip_ws_def)
  moreover have "parse_value maxNestingDepth b = Some (w, [])"
    by (rule parse_depth_mono(1)[OF b(3) assms(2)])
  ultimately show ?thesis by (simp add: json_Valid_def parse_top_def skip_ws_def)
qed

lemma top_member_bytes_valid:
  assumes "parse_top s = Some (JObject ms)" and "(k, b, w) \<in> set ms"
  shows "json_Valid b"
proof -
  from assms(1) obtain r where pv: "parse_value maxNestingDepth (skip_ws s) = Some (JObject ms, r)"
    by (auto simp: parse_top_def split: option.splits if_splits)
  obtain c cs where s: "skip_ws s = c # cs"
    using pv by (cases "skip_ws s") (auto simp: parse_value.simps)
  note eq0 = pv[unfolded parse_value.simps[of maxNestingDepth "skip_ws s"]]
  note eq = eq0[unfolded s list.case]
  from assms(2) have ne: "ms \<noteq> []" by auto
  have c: "c = CHR ''{''"
    using eq by (auto split: if_splits option.splits list.splits)
  with eq ne obtain c' cs' where sk: "skip_ws cs = c' # cs'"
    and pm: "parse_members (maxNestingDepth - 1) (c' # cs') = Some (ms, r)"
    by (cases "skip_ws cs") (auto split: if_splits option.splits)
  show ?thesis
    by (rule member_bytes_valid[OF pm _ assms(2)]) simp
qed

lemma Event_member_Payload:
  "Payload (fst (fst (Event_member ((ev, sp), e) (k, raw, v)))) = Payload ev
     \<or> Payload (fst (fst (Event_member ((ev, sp), e) (k, raw, v)))) = raw"
  by (cases sp) (simp add: Event_member_def split: option.splits prod.splits)

lemma foldl_Event_member_Payload:
  assumes "\<forall>(k, b, w) \<in> set ms. json_Valid b"
    and "Payload (fst (fst acc)) = [] \<or> json_Valid (Payload (fst (fst acc)))"
  shows "Payload (fst (fst (foldl Event_member acc ms))) = []
           \<or> json_Valid (Payload (fst (fst (foldl Event_member acc ms))))"
  using assms
proof (induction ms arbitrary: acc)
  case Nil
  then show ?case by simp
next
  case (Cons m ms)
  obtain ev sp e where acc: "acc = ((ev, sp), e)" by (cases acc) auto
  obtain k raw v where m: "m = (k, raw, v)" by (cases m)
  from Cons.prems(1) m have raw: "json_Valid raw" by auto
  have "Payload (fst (fst (Event_member acc m))) = []
          \<or> json_Valid (Payload (fst (fst (Event_member acc m))))"
    using Event_member_Payload[of ev sp e k raw v] Cons.prems(2) raw acc m by auto
  moreover from Cons.prems(1) have "\<forall>(k, b, w) \<in> set ms. json_Valid b" by simp
  ultimately show ?case using Cons.IH[of "Event_member acc m"] by simp
qed

lemma typed_event_Payload:
  assumes "typed_event line = Some event"
  shows "Payload event = [] \<or> json_Valid (Payload event)"
proof -
  from assms obtain j where j: "parse_top (TrimSpace line) = Some j"
    and dec: "decode_Event zero_Event j = (event, False)"
    by (auto simp: typed_event_parse split: option.splits prod.splits if_splits)
  show ?thesis
  proof (cases j)
    case (JObject ms)
    have "\<forall>(k, b, w) \<in> set ms. json_Valid b"
      using top_member_bytes_valid[OF j[unfolded JObject]] by auto
    from foldl_Event_member_Payload[OF this, of "((zero_Event, [], []), False)"] dec JObject
    show ?thesis
      by (auto simp: decode_Event_def decode_struct_def zero_Event_def split: prod.splits)
  qed (use dec in \<open>auto simp: decode_Event_def decode_struct_def zero_Event_def\<close>)
qed

lemma validateEvent_payload_error:
  assumes "validateEvent event = Some (errors_New ''payload must be valid JSON'')"
  shows "Payload event \<noteq> [] \<and> \<not> json_Valid (Payload event)"
  using assms
  by (simp add: validateEvent_def split: if_splits option.splits)

lemma validateRequiredKeys_not_payload_error:
  "validateRequiredKeys raw \<noteq> Some (errors_New ''payload must be valid JSON'')"
  by (simp add: validateRequiredKeys_def split: option.splits)

lemma json_Unmarshal_error:
  "json_Unmarshal dec cur data = Inl err \<Longrightarrow> err = SyntaxError \<or> err = UnmarshalTypeError"
  by (auto simp: json_Unmarshal_def split: option.splits prod.splits if_splits)

subsection \<open>The grammar of RFC 3339\<close>

text \<open>
  The \<open>date-time\<close> production of RFC 3339 (section 5.6):
  \<^verbatim>\<open>4DIGIT "-" 2DIGIT "-" 2DIGIT "T" 2DIGIT ":" 2DIGIT ":" 2DIGIT ["." 1*DIGIT]\<close>
  followed by \<^verbatim>\<open>"Z"\<close> or \<^verbatim>\<open>("+" / "-") 2DIGIT ":" 2DIGIT\<close>, the letters in either
  case. Only the shape is stated, not the ranges of the numbers. The program does
  not use this grammar; it is what the specification names.
\<close>

definition rfc3339_offset :: "string \<Rightarrow> bool" where
  "rfc3339_offset s =
     (s = ''Z'' \<or> s = ''z''
      \<or> (case s of
            [sg, h1, h2, c, m1, m2] \<Rightarrow>
              (sg = CHR ''+'' \<or> sg = CHR ''-'') \<and> is_digit h1 \<and> is_digit h2 \<and> c = CHR '':''
              \<and> is_digit m1 \<and> is_digit m2
          | _ \<Rightarrow> False))"

definition rfc3339_date_time :: "string \<Rightarrow> bool" where
  "rfc3339_date_time s =
     (list_all is_digit (take 4 s) \<and> take 1 (drop 4 s) = ''-''
      \<and> list_all is_digit (take 2 (drop 5 s)) \<and> take 1 (drop 7 s) = ''-''
      \<and> list_all is_digit (take 2 (drop 8 s))
      \<and> (take 1 (drop 10 s) = ''T'' \<or> take 1 (drop 10 s) = ''t'')
      \<and> list_all is_digit (take 2 (drop 11 s)) \<and> take 1 (drop 13 s) = '':''
      \<and> list_all is_digit (take 2 (drop 14 s)) \<and> take 1 (drop 16 s) = '':''
      \<and> list_all is_digit (take 2 (drop 17 s)) \<and> 19 < length s
      \<and> (if take 1 (drop 19 s) = ''.''
          then takeWhile is_digit (drop 20 s) \<noteq> []
               \<and> rfc3339_offset (dropWhile is_digit (drop 20 s))
          else rfc3339_offset (drop 19 s)))"

lemma rfc3339_examples:
  "rfc3339_date_time ''2026-02-28T11:20:31.331Z''"
  "rfc3339_date_time ''2026-02-28T12:20:31.331+01:00''"
  "rfc3339_date_time ''2026-02-28T23:59:60Z''"
  "\<not> rfc3339_date_time ''2026-02-28T1:20:31Z''"
  by (simp_all add: rfc3339_date_time_def rfc3339_offset_def is_digit_def byte_def)

subsection \<open>The integers of a decoded event\<close>

text \<open>
  A Go \<^verbatim>\<open>int\<close> holds 64 bits on the platforms the program is built for.
  \<open>frames_of\<close> reads a slice of frames as a list, the \<^verbatim>\<open>nil\<close> slice as the empty one.
\<close>

definition is_int64 :: "int \<Rightarrow> bool" where
  "is_int64 n = (- (2 ^ 63) \<le> n \<and> n \<le> 2 ^ 63 - 1)"

definition frames_of :: "TraceFrame list option \<Rightarrow> TraceFrame list" where
  "frames_of t = (case t of None \<Rightarrow> [] | Some frames \<Rightarrow> frames)"

lemma ParseInt64_range: "ParseInt64 s = Some n \<Longrightarrow> is_int64 n"
  by (auto simp: ParseInt64_def Let_def is_int64_def split: list.splits if_splits)

lemma decode_int_range: "decode_int cur j = (x, e) \<Longrightarrow> is_int64 cur \<Longrightarrow> is_int64 x"
  by (auto simp: decode_int_def split: json.splits option.splits dest: ParseInt64_range)

lemma TraceFrame_member_Line:
  "is_int64 (Line (fst acc)) \<Longrightarrow> is_int64 (Line (fst (TraceFrame_member acc m)))"
  by (auto simp: TraceFrame_member_def split: prod.splits option.splits dest: decode_int_range)

lemma foldl_TraceFrame_member_Line:
  "is_int64 (Line (fst acc)) \<Longrightarrow> is_int64 (Line (fst (foldl TraceFrame_member acc ms)))"
  by (induction ms arbitrary: acc) (simp_all add: TraceFrame_member_Line)

lemma decode_TraceFrame_Line:
  "is_int64 (Line cur) \<Longrightarrow> is_int64 (Line (fst (decode_TraceFrame cur j)))"
  using foldl_TraceFrame_member_Line[of "(cur, False)"]
  by (simp add: decode_TraceFrame_def decode_struct_def split: json.splits)

lemma decode_elems_Line:
  assumes "\<forall>f \<in> set cur. is_int64 (Line f)"
  shows "\<forall>f \<in> set (fst (decode_elems decode_TraceFrame zero_TraceFrame cur vs)). is_int64 (Line f)"
  using assms
proof (induction vs arbitrary: cur)
  case Nil
  then show ?case by simp
next
  case (Cons v vs)
  have z: "is_int64 (Line zero_TraceFrame)" by (simp add: zero_TraceFrame_def is_int64_def)
  have hd: "is_int64 (Line (case cur of [] \<Rightarrow> zero_TraceFrame | c # _ \<Rightarrow> c))"
    using Cons.prems z by (cases cur) auto
  have tl: "\<forall>f \<in> set (tl cur). is_int64 (Line f)"
    using Cons.prems by (cases cur) auto
  from decode_TraceFrame_Line[OF hd, of v] Cons.IH[OF tl]
  show ?case by (auto split: prod.splits)
qed

lemma decode_slice_Line:
  assumes "\<forall>f \<in> set (frames_of (fst cur) @ snd cur). is_int64 (Line f)"
  shows "\<forall>f \<in> set (frames_of (fst (fst (decode_slice decode_TraceFrame zero_TraceFrame cur j)))
                    @ snd (fst (decode_slice decode_TraceFrame zero_TraceFrame cur j))).
           is_int64 (Line f)"
proof -
  obtain elems spare where cur: "cur = (elems, spare)" by (cases cur)
  show ?thesis
  proof (cases j)
    case (JArray vs)
    define backing where "backing = (case elems of None \<Rightarrow> [] | Some xs \<Rightarrow> xs) @ spare"
    have b: "\<forall>f \<in> set backing. is_int64 (Line f)"
      using assms by (simp add: backing_def cur frames_of_def)
    have d: "\<forall>f \<in> set (drop (length vs) backing). is_int64 (Line f)"
      using b by (meson in_set_dropD)
    from decode_elems_Line[OF b, of vs] d JArray show ?thesis
      by (auto simp: decode_slice_def frames_of_def cur Let_def backing_def[symmetric]
               split: prod.splits)
  qed (use assms cur in \<open>auto simp: decode_slice_def frames_of_def\<close>)
qed

lemma Event_member_Trace:
  assumes "\<forall>f \<in> set (frames_of (Trace (fst (fst acc))) @ fst (snd (fst acc))). is_int64 (Line f)"
  shows "\<forall>f \<in> set (frames_of (Trace (fst (fst (Event_member acc m))))
                    @ fst (snd (fst (Event_member acc m)))). is_int64 (Line f)"
proof -
  obtain ev tsp asp e where acc: "acc = ((ev, tsp, asp), e)" by (cases acc) auto
  obtain k raw v where m: "m = (k, raw, v)" by (cases m)
  define r where "r = Event_member ((ev, tsp, asp), e) (k, raw, v)"
  have "(Trace (fst (fst r)), fst (snd (fst r))) = (Trace ev, tsp)
          \<or> (Trace (fst (fst r)), fst (snd (fst r)))
               = fst (decode_slice decode_TraceFrame zero_TraceFrame (Trace ev, tsp) v)"
    unfolding r_def by (simp add: Event_member_def split: option.splits prod.splits)
  with assms decode_slice_Line[of "(Trace ev, tsp)" v] show ?thesis
    unfolding acc m r_def[symmetric] by (auto simp: prod_eq_iff)
qed

lemma foldl_Event_member_Trace:
  "\<forall>f \<in> set (frames_of (Trace (fst (fst acc))) @ fst (snd (fst acc))). is_int64 (Line f) \<Longrightarrow>
     \<forall>f \<in> set (frames_of (Trace (fst (fst (foldl Event_member acc ms))))
               @ fst (snd (fst (foldl Event_member acc ms)))). is_int64 (Line f)"
proof (induction ms arbitrary: acc)
  case Nil
  then show ?case by simp
next
  case (Cons m ms)
  from Cons.IH[OF Event_member_Trace[OF Cons.prems, of m]] show ?case by simp
qed

lemma typed_event_Trace:
  assumes "typed_event line = Some event"
  shows "\<forall>f \<in> set (frames_of (Trace event)). is_int64 (Line f)"
proof -
  from assms obtain j where dec: "decode_Event zero_Event j = (event, False)"
    by (auto simp: typed_event_parse split: option.splits prod.splits if_splits)
  have z: "\<forall>f \<in> set (frames_of (Trace (fst (fst ((zero_Event, [], []), False))))
                     @ fst (snd (fst ((zero_Event, [], []), False)))). is_int64 (Line f)"
    by (simp add: zero_Event_def frames_of_def)
  show ?thesis
  proof (cases j)
    case (JObject ms)
    from foldl_Event_member_Trace[OF z, of ms] dec JObject show ?thesis
      by (auto simp: decode_Event_def decode_struct_def split: prod.splits)
  qed (use dec z in \<open>auto simp: decode_Event_def decode_struct_def\<close>)
qed

subsection \<open>Well-formed lines of the data model\<close>





















subsection \<open>Members that name a field once\<close>









subsection \<open>Values that fit are stored without a type error\<close>


















subsection \<open>A member changes the field that its key names\<close>
























subsection \<open>The stages of the decoder on a well-formed object\<close>











subsection \<open>A well-formed example\<close>



section \<open>Properties of the decoder\<close>

subsection \<open>Blank lines\<close>

text \<open>
  Claim C7. A line that is empty after \<^verbatim>\<open>strings.TrimSpace\<close> (an empty line, or one
  made of white space only, such as three spaces) makes \<^verbatim>\<open>DecodeNDJSONLine\<close> return a
  nil event together with a nil error.
\<close>

theorem blank_line_skipped: "TrimSpace line = [] \<Longrightarrow> DecodeNDJSONLine line = (None, None)"
  by (simp add: DecodeNDJSONLine_def)

theorem blank_line_skipped_witness:
  "TrimSpace ''   '' = [] \<and> DecodeNDJSONLine ''   '' = (None, None)"
  using blank_line_skipped[of "''   ''"] TrimSpace_spaces by simp

subsection \<open>Schema version\<close>

text \<open>
  Claim C5. When the line passes the presence and coarse type checks and parses into
  the typed event, and the decoded \<^verbatim>\<open>schemaVersion\<close> is not the supported constant,
  the decoder returns the sentinel \<^verbatim>\<open>ErrUnsupportedSchemaVersion\<close> itself, whatever the
  other fields hold: the version check is the first check of \<^verbatim>\<open>validateEvent\<close>.
  The example line carries version 2 together with an empty id, an unparseable
  timestamp, an unknown source type, a payload format other than json and an
  invalid host.
\<close>

theorem unsupported_version_first:
  assumes "typed_event line = Some event"
    and "SchemaVersion event \<noteq> dump_SchemaVersion"
  shows "DecodeNDJSONLine line = (None, Some ErrUnsupportedSchemaVersion)"
  using assms by (simp add: Decode_typed_event validateEvent_def)

theorem unsupported_version_first_witness:
  "typed_event L_v2 = Some E_v2 \<and> SchemaVersion E_v2 \<noteq> dump_SchemaVersion
     \<and> ID E_v2 = [] \<and> time_Parse_RFC3339Nano (Timestamp E_v2) = None
     \<and> DecodeNDJSONLine L_v2 = (None, Some ErrUnsupportedSchemaVersion)"
proof -
  have v: "SchemaVersion E_v2 \<noteq> dump_SchemaVersion"
    by (simp add: E_v2_def dump_SchemaVersion_def)
  have t: "time_Parse_RFC3339Nano (Timestamp E_v2) = None"
    by (simp add: E_v2_def time_eval)
  from unsupported_version_first[OF typed_L_v2 v] typed_L_v2 v t show ?thesis
    by (simp add: E_v2_def)
qed

subsection \<open>Missing required keys\<close>

text \<open>
  Claim C3. When the trimmed line is a JSON object that lacks a required top-level
  key, the decoder returns the one error
  \<^verbatim>\<open>missing required dump event field: <key>\<close> where \<^verbatim>\<open><key>\<close> is the first key of
  \<^verbatim>\<open>requiredEventKeys\<close>, in the declared order, that the object does not have. The
  example line lacks nine of the twelve keys and the error names \<^verbatim>\<open>id\<close> alone.
\<close>

theorem first_missing_key_reported:
  assumes "parse_top (TrimSpace line) = Some (JObject ms)"
    and "key \<in> set requiredEventKeys"
    and "key \<notin> fst ` set ms"
    and "\<forall>k \<in> set (takeWhile (\<lambda>k. k \<noteq> key) requiredEventKeys). k \<in> fst ` set ms"
  shows "DecodeNDJSONLine line =
           (None, Some (fmt_Errorf (''missing required dump event field: '' @ key)))"
proof -
  from assms(1) have ne: "TrimSpace line \<noteq> []"
    by (auto simp: parse_top_Nil)
  define raw where "raw = foldl (\<lambda>m (k, raw, v). m(k \<mapsto> raw)) Map.empty ms"
  have um: "json_Unmarshal decode_raw_map Map.empty (TrimSpace line) = Inr raw"
    using assms(1) by (simp add: json_Unmarshal_def decode_raw_map_def raw_def)
  have dom: "raw k = None \<longleftrightarrow> k \<notin> fst ` set ms" for k
    unfolding raw_def by (simp add: foldl_raw_map)
  have "List.find (\<lambda>key. raw key = None) requiredEventKeys = Some key"
    by (rule find_first) (use assms dom in auto)
  then have "validateRequiredKeys raw
               = Some (fmt_Errorf (''missing required dump event field: '' @ key))"
    by (simp add: validateRequiredKeys_def)
  with ne um show ?thesis
    by (simp add: DecodeNDJSONLine_def Let_def)
qed

theorem first_missing_key_reported_witness:
  "DecodeNDJSONLine L_missing
     = (None, Some (fmt_Errorf ''missing required dump event field: id''))"
  using first_missing_key_reported[of L_missing _ "''id''"]
  unfolding TrimSpace_L_missing parse_L_missing
  by (simp add: requiredEventKeys_def)

subsection \<open>Timestamp\<close>

text \<open>
  Claim C4. The statement that the decoder fails with
  \<^verbatim>\<open>timestamp must be RFC3339Nano\<close> exactly when the timestamp does not parse under
  the grammar of RFC 3339 does not hold: the program parses with \<^verbatim>\<open>time.Parse\<close> and
  the layout \<^verbatim>\<open>RFC3339Nano\<close>, which accepts strings outside this grammar. The line
  below has the hour written with one digit, \<^verbatim>\<open>2026-02-28T1:20:31Z\<close>: the timestamp is
  not a \<open>date-time\<close> of RFC 3339, it parses all the same, and the decoder fails with
  \<^verbatim>\<open>timestamp must be UTC (Z)\<close>, the formatting giving \<^verbatim>\<open>01\<close> for the hour.
\<close>

theorem one_digit_hour_parses:
  "\<not> rfc3339_date_time (Timestamp E_hour)
     \<and> typed_event L_hour = Some E_hour
     \<and> Timestamp E_hour = ''2026-02-28T1:20:31Z''
     \<and> DecodeNDJSONLine L_hour = (None, Some (errors_New ''timestamp must be UTC (Z)''))
     \<and> DecodeNDJSONLine L_hour \<noteq> (None, Some (errors_New ''timestamp must be RFC3339Nano''))"
proof -
  have "validateEvent E_hour = Some (errors_New ''timestamp must be UTC (Z)'')"
    by (simp add: validateEvent_def E_hour_def dump_SchemaVersion_def time_hour_parse
          time_hour_format)
  with Decode_typed_event[OF typed_L_hour] rfc3339_examples(4) typed_L_hour show ?thesis
    by (simp add: E_hour_def)
qed

text \<open>
  Claim C4, as it holds. For an event that reaches the timestamp check (the line
  parsed into the typed event after the presence checks, the version is supported,
  the required strings and the payload are not empty, the host is valid), the
  decoder fails with \<^verbatim>\<open>timestamp must be RFC3339Nano\<close> exactly when \<^verbatim>\<open>time.Parse\<close> with
  the layout \<^verbatim>\<open>RFC3339Nano\<close> rejects the timestamp, and with
  \<^verbatim>\<open>timestamp must be UTC (Z)\<close> exactly when it parses and formatting the instant in
  UTC with the same layout gives another string; a line that is accepted has a
  timestamp that parses and is reproduced by the formatting. The example line has
  the offset \<^verbatim>\<open>+01:00\<close>.
\<close>

theorem timestamp_check:
  assumes "typed_event line = Some event"
    and "SchemaVersion event = dump_SchemaVersion"
    and "ID event \<noteq> []" "Timestamp event \<noteq> []" "SourceType event \<noteq> []"
      "ProjectRoot event \<noteq> []" "PHPSAPI event \<noteq> []" "PayloadFormat event \<noteq> []"
      "Payload event \<noteq> []"
    and "Hostname (Host event) \<noteq> []" "0 < PID (Host event)"
  shows "(DecodeNDJSONLine line = (None, Some (errors_New ''timestamp must be RFC3339Nano''))
            \<longleftrightarrow> time_Parse_RFC3339Nano (Timestamp event) = None)
       \<and> (DecodeNDJSONLine line = (None, Some (errors_New ''timestamp must be UTC (Z)''))
            \<longleftrightarrow> (\<exists>t. time_Parse_RFC3339Nano (Timestamp event) = Some t
                     \<and> Format_RFC3339Nano (UTC t) \<noteq> Timestamp event))
       \<and> ((\<exists>ev. DecodeNDJSONLine line = (Some ev, None))
            \<longrightarrow> (\<exists>t. time_Parse_RFC3339Nano (Timestamp event) = Some t
                     \<and> Format_RFC3339Nano (UTC t) = Timestamp event))"
  using assms
  by (auto simp: Decode_typed_event validateEvent_def split: option.splits)

theorem timestamp_check_witness:
  "typed_event L_offset = Some E_offset
     \<and> time_Parse_RFC3339Nano (Timestamp E_offset)
         = Some \<lparr>unix_sec = 1772277631, nsec = 331000000, zone_offset = 3600\<rparr>
     \<and> DecodeNDJSONLine L_offset = (None, Some (errors_New ''timestamp must be UTC (Z)''))"
proof -
  have p: "time_Parse_RFC3339Nano (Timestamp E_offset)
             = Some \<lparr>unix_sec = 1772277631, nsec = 331000000, zone_offset = 3600\<rparr>"
    by (simp add: E_offset_def time_example_offset)
  have f: "Format_RFC3339Nano
             (UTC \<lparr>unix_sec = 1772277631, nsec = 331000000, zone_offset = 3600\<rparr>)
             \<noteq> Timestamp E_offset"
    by (simp add: E_offset_def time_example_format)
  have "DecodeNDJSONLine L_offset = (None, Some (errors_New ''timestamp must be UTC (Z)''))"
    using timestamp_check[OF typed_L_offset, THEN conjunct2, THEN conjunct1] p f
    by (simp add: E_offset_def dump_SchemaVersion_def)
  with typed_L_offset p show ?thesis by simp
qed

subsection \<open>The sub-object of the source type\<close>

text \<open>
  Claim C6. For an event that reaches the check of the conditional sub-object
  (all the earlier checks of \<^verbatim>\<open>validateEvent\<close> passed): with source type \<^verbatim>\<open>http\<close>,
  a missing \<^verbatim>\<open>http\<close> object fails with
  \<^verbatim>\<open>http metadata is required when sourceType is http\<close> and one with an empty method,
  scheme, host or path fails with \<^verbatim>\<open>http metadata is missing required fields\<close>; with
  source type \<^verbatim>\<open>cli\<close>, \<^verbatim>\<open>worker\<close> or \<^verbatim>\<open>cron\<close>, a missing \<^verbatim>\<open>command\<close> object fails with
  \<^verbatim>\<open>command metadata is required when sourceType is cli, worker, or cron\<close> and one
  with an empty name fails with \<^verbatim>\<open>command metadata is missing required field: name\<close>;
  and an accepted line has the sub-object of its source type, with those members
  not empty.
\<close>

theorem substructure_check:
  assumes "typed_event line = Some event"
    and "SchemaVersion event = dump_SchemaVersion"
    and "ID event \<noteq> []" "Timestamp event \<noteq> []" "SourceType event \<noteq> []"
      "ProjectRoot event \<noteq> []" "PHPSAPI event \<noteq> []" "PayloadFormat event \<noteq> []"
      "Payload event \<noteq> []"
    and "Hostname (Host event) \<noteq> []" "0 < PID (Host event)"
    and "time_Parse_RFC3339Nano (Timestamp event) = Some t"
    and "Format_RFC3339Nano (UTC t) = Timestamp event"
    and "SourceType event \<in> {''http'', ''cli'', ''worker'', ''cron''}"
    and "PayloadFormat event = ''json''"
  shows "(SourceType event = ''http'' \<and> HTTP event = None \<longrightarrow>
            DecodeNDJSONLine line =
              (None, Some (errors_New ''http metadata is required when sourceType is http'')))
       \<and> (SourceType event = ''http'' \<and>
            (\<exists>h. HTTP event = Some h
                 \<and> (Method h = [] \<or> Scheme h = [] \<or> HTTP_Host h = [] \<or> Path h = [])) \<longrightarrow>
            DecodeNDJSONLine line =
              (None, Some (errors_New ''http metadata is missing required fields'')))
       \<and> (SourceType event \<in> {''cli'', ''worker'', ''cron''} \<and> Command event = None \<longrightarrow>
            DecodeNDJSONLine line =
              (None, Some (errors_New
                 ''command metadata is required when sourceType is cli, worker, or cron'')))
       \<and> (SourceType event \<in> {''cli'', ''worker'', ''cron''} \<and>
            (\<exists>c. Command event = Some c \<and> Name c = []) \<longrightarrow>
            DecodeNDJSONLine line =
              (None, Some (errors_New ''command metadata is missing required field: name'')))
       \<and> ((\<exists>ev. DecodeNDJSONLine line = (Some ev, None)) \<longrightarrow>
            (SourceType event = ''http'' \<longrightarrow>
               (\<exists>h. HTTP event = Some h
                    \<and> Method h \<noteq> [] \<and> Scheme h \<noteq> [] \<and> HTTP_Host h \<noteq> [] \<and> Path h \<noteq> []))
          \<and> (SourceType event \<in> {''cli'', ''worker'', ''cron''} \<longrightarrow>
               (\<exists>c. Command event = Some c \<and> Name c \<noteq> [])))"
  using assms
  by (auto simp: Decode_typed_event validateEvent_def split: option.splits if_splits)

theorem substructure_check_witness:
  "typed_event L_nohttp = Some E_nohttp \<and> SourceType E_nohttp = ''http''
     \<and> HTTP E_nohttp = None
     \<and> DecodeNDJSONLine L_nohttp =
         (None, Some (errors_New ''http metadata is required when sourceType is http''))"
proof -
  have "DecodeNDJSONLine L_nohttp =
         (None, Some (errors_New ''http metadata is required when sourceType is http''))"
    using substructure_check[OF typed_L_nohttp, THEN conjunct1,
        of "\<lparr>unix_sec = 1772277631, nsec = 331000000, zone_offset = 0\<rparr>"]
    by (simp add: E_nohttp_def dump_SchemaVersion_def time_example)
  with typed_L_nohttp show ?thesis by (simp add: E_nohttp_def)
qed

text \<open>
  Claim C2. The statement that a returned event has exactly one of \<^verbatim>\<open>http\<close> and
  \<^verbatim>\<open>command\<close> populated does not hold: \<^verbatim>\<open>validateEvent\<close> looks only at the
  sub-object that the source type requires and never at the other one. The line
  below has source type \<^verbatim>\<open>http\<close> and carries both sub-objects; it is accepted and
  the returned event has both.
\<close>

theorem both_substructures_accepted:
  "DecodeNDJSONLine L_both = (Some E_both, None)
     \<and> SourceType E_both = ''http'' \<and> HTTP E_both \<noteq> None \<and> Command E_both \<noteq> None"
  using Decode_L_both by (simp add: E_both_def)

text \<open>
  Claim C2, as it holds. A returned event has a source type among \<^verbatim>\<open>http\<close>, \<^verbatim>\<open>cli\<close>,
  \<^verbatim>\<open>worker\<close> and \<^verbatim>\<open>cron\<close> and the sub-object that this source type requires is
  populated: \<^verbatim>\<open>http\<close> when the source type is \<^verbatim>\<open>http\<close>, \<^verbatim>\<open>command\<close> otherwise. Nothing
  is said about the other sub-object.
\<close>

theorem substructure_of_source_type:
  assumes "DecodeNDJSONLine line = (Some event, err)"
  shows "SourceType event \<in> {''http'', ''cli'', ''worker'', ''cron''}
       \<and> (SourceType event = ''http'' \<longrightarrow> HTTP event \<noteq> None)
       \<and> (SourceType event \<in> {''cli'', ''worker'', ''cron''} \<longrightarrow> Command event \<noteq> None)"
proof -
  from Decode_returns_event[OF assms] have "validateEvent event = None" by simp
  then show ?thesis
    by (auto simp: validateEvent_def split: option.splits if_splits)
qed

theorem substructure_of_source_type_witness:
  "DecodeNDJSONLine L_cli = (Some E_cli, None) \<and> SourceType E_cli = ''cli''
     \<and> Command E_cli \<noteq> None"
  using substructure_of_source_type[OF Decode_L_cli] Decode_L_cli
  by (simp add: E_cli_def)

subsection \<open>Trace frames\<close>

text \<open>
  Claim C8. The statement that every frame of the trace of a returned event has a
  positive line does not hold: no check of the decoder looks at the frames. The
  line below has one frame with the line number \<open>-5\<close>; it is accepted and the frame
  is returned as it was sent.
\<close>

theorem trace_line_negative_accepted:
  "DecodeNDJSONLine L_both = (Some E_both, None)
     \<and> Trace E_both = Some [\<lparr>File = ''a.php'', Line = - 5, Func = []\<rparr>]
     \<and> \<not> 0 < Line \<lparr>File = ''a.php'', Line = - 5, Func = []\<rparr>"
  using Decode_L_both by (simp add: E_both_def)

text \<open>
  Claim C8, as it holds. Every frame of the trace of a returned event has a line
  that is a 64-bit signed integer. Its sign is not checked: the frame above has a
  negative one.
\<close>

theorem trace_line_is_int:
  assumes "DecodeNDJSONLine line = (Some event, err)"
  shows "\<forall>frame \<in> set (frames_of (Trace event)). is_int64 (Line frame)"
  using typed_event_Trace Decode_returns_event[OF assms] by blast

theorem trace_line_is_int_witness:
  "DecodeNDJSONLine L_both = (Some E_both, None)
     \<and> frames_of (Trace E_both) = [\<lparr>File = ''a.php'', Line = - 5, Func = []\<rparr>]
     \<and> is_int64 (- 5)"
  using trace_line_is_int[OF Decode_L_both] Decode_L_both
  by (simp add: E_both_def frames_of_def)

subsection \<open>The payload\<close>

text \<open>
  Claim C10. \<^verbatim>\<open>DecodeNDJSONLine\<close> never returns the error
  \<^verbatim>\<open>payload must be valid JSON\<close>: the payload of the event that reaches
  \<^verbatim>\<open>validateEvent\<close> is empty or holds the bytes of a member's value of the parsed
  line, and these bytes are valid JSON on their own, so the last check of
  \<^verbatim>\<open>validateEvent\<close> cannot fail.
\<close>

theorem payload_error_unreachable:
  "snd (DecodeNDJSONLine line) \<noteq> Some (errors_New ''payload must be valid JSON'')
     \<and> (typed_event line = Some event \<and> Payload event \<noteq> [] \<longrightarrow> json_Valid (Payload event))"
proof
  show "snd (DecodeNDJSONLine line) \<noteq> Some (errors_New ''payload must be valid JSON'')"
  proof
    assume a: "snd (DecodeNDJSONLine line) = Some (errors_New ''payload must be valid JSON'')"
    show False
    proof (cases "typed_event line")
      case None
      with a show False
        using validateRequiredKeys_not_payload_error
        by (auto simp: DecodeNDJSONLine_def typed_event_def Let_def
                 split: if_splits sum.splits option.splits
                 dest!: json_Unmarshal_error)
    next
      case (Some ev)
      from a Decode_typed_event[OF Some]
      have "validateEvent ev = Some (errors_New ''payload must be valid JSON'')"
        by (auto split: option.splits)
      from validateEvent_payload_error[OF this] typed_event_Payload[OF Some]
      show False by simp
    qed
  qed
  show "typed_event line = Some event \<and> Payload event \<noteq> [] \<longrightarrow> json_Valid (Payload event)"
    using typed_event_Payload by blast
qed

theorem payload_error_unreachable_witness:
  \<open>typed_event L_cli = Some E_cli \<and> Payload E_cli = ''{"k":"v"}''
     \<and> json_Valid (Payload E_cli)
     \<and> snd (DecodeNDJSONLine L_cli) \<noteq> Some (errors_New ''payload must be valid JSON'')\<close>
  using payload_error_unreachable[of L_cli E_cli] typed_L_cli
  by (simp add: E_cli_def)

subsection \<open>Well-formed lines\<close>




end
